theory Spec2Isabelle
  imports Complex_Main "HOL-Library.Word"
begin

section \<open>Bytes, exceptions and the shared buffer\<close>

text \<open>
  A \<open>multiprocessing.shared_memory.SharedMemory\<close> object is modelled by its name and the
  bytes of its buffer (\<open>shm.buf\<close>).  Every function of the library that mutates the
  buffer takes the segment and returns the updated one.  A Python exception is a value of
  type \<open>error\<close>; a function that can raise returns \<open>error + 'a\<close>, paired with the
  segment as it is at that moment when the function mutates it.
\<close>

type_synonym byte = "8 word"
type_synonym bytes = "byte list"
type_synonym int64 = "64 word"

text \<open>The exception classes of \<open>exceptions.py\<close>, and the built-in ones the modelled code can raise.\<close>

datatype error =
    SHMError
  | SHMConnectionError
  | SHMTimeoutError
  | SHMBufferFullError
  | SHMSerializationError
  | ValueError
  | ZeroDivisionError
  | StructError
  | TypeError
  | OverflowError
  | FileNotFoundError
  | AttributeError

text \<open>\<open>isinstance(e, SHMError)\<close>: the four library exceptions derive from \<open>SHMError\<close>,
  the built-in ones do not.\<close>

fun is_SHMError :: "error \<Rightarrow> bool" where
  "is_SHMError SHMError = True"
| "is_SHMError SHMConnectionError = True"
| "is_SHMError SHMTimeoutError = True"
| "is_SHMError SHMBufferFullError = True"
| "is_SHMError SHMSerializationError = True"
| "is_SHMError _ = False"

record shm =
  shm_name :: string
  buf :: bytes

subsection \<open>Little-endian integers\<close>

fun le_decode :: "bytes \<Rightarrow> nat" where
  "le_decode [] = 0"
| "le_decode (b # bs) = unat b + 256 * le_decode bs"

fun le_encode :: "nat \<Rightarrow> nat \<Rightarrow> bytes" where
  "le_encode 0 v = []"
| "le_encode (Suc n) v = of_nat (v mod 256) # le_encode n (v div 256)"

text \<open>Reading \<open>n\<close> bytes at an offset of a buffer, and overwriting the bytes at an offset
  (the buffer keeps its length when the bytes fit).\<close>

definition buf_load :: "bytes \<Rightarrow> nat \<Rightarrow> nat \<Rightarrow> bytes" where
  "buf_load b off n = take n (drop off b)"

definition buf_store :: "bytes \<Rightarrow> nat \<Rightarrow> bytes \<Rightarrow> bytes" where
  "buf_store b off bs = take off b @ bs @ drop (off + length bs) b"

subsection \<open>Constants of \<open>core.py\<close>\<close>

definition MAGIC :: int where "MAGIC = 0x53484D434F4D4D31"
definition VERSION :: int where "VERSION = 1"
definition HEADER_SIZE :: int where "HEADER_SIZE = 128"
definition SLOT_PREFIX_SIZE :: int where "SLOT_PREFIX_SIZE = 4"

definition IDX_MAGIC :: nat where "IDX_MAGIC = 0"
definition IDX_VERSION :: nat where "IDX_VERSION = 1"
definition IDX_HEAD :: nat where "IDX_HEAD = 2"
definition IDX_TAIL :: nat where "IDX_TAIL = 3"
definition IDX_MSG_COUNT :: nat where "IDX_MSG_COUNT = 4"
definition IDX_DROP_COUNT :: nat where "IDX_DROP_COUNT = 5"
definition IDX_NUM_SLOTS :: nat where "IDX_NUM_SLOTS = 6"
definition IDX_SLOT_SIZE :: nat where "IDX_SLOT_SIZE = 7"

definition segment_size :: "int \<Rightarrow> int \<Rightarrow> int" where
  "segment_size num_slots slot_size = HEADER_SIZE + num_slots * slot_size"

subsection \<open>The header: a view of sixteen little-endian int64 cells\<close>

text \<open>
  \<open>_make_header_array\<close> builds \<open>np.ndarray((16,), dtype="<i8", buffer=shm.buf, offset=0)\<close>,
  which raises \<open>TypeError\<close> when the buffer has fewer than 128 bytes.  The view is live:
  \<open>hdr[i]\<close> reads the eight bytes at \<open>8 * i\<close> and \<open>hdr[i] = v\<close> writes them, so the
  model reads and writes the segment's buffer.  \<open>int(hdr[i])\<close> is \<open>sint\<close> of the cell.
\<close>

definition make_header_array :: "shm \<Rightarrow> error + unit" where
  "make_header_array s = (if length (buf s) < 128 then Inl TypeError else Inr ())"

definition get_header :: "shm \<Rightarrow> error + unit" where
  "get_header s = make_header_array s"

definition hdr_get :: "shm \<Rightarrow> nat \<Rightarrow> int64" where
  "hdr_get s i = of_nat (le_decode (buf_load (buf s) (8 * i) 8))"

definition hdr_set :: "shm \<Rightarrow> nat \<Rightarrow> int64 \<Rightarrow> shm" where
  "hdr_set s i v = s\<lparr>buf := buf_store (buf s) (8 * i) (le_encode 8 (unat v))\<rparr>"

text \<open>Storing a Python integer into an int64 cell (\<open>hdr[i] = n\<close>, \<open>np.int64(n)\<close>) raises
  \<open>OverflowError\<close> outside the int64 range.\<close>

definition np_int64 :: "int \<Rightarrow> error + int64" where
  "np_int64 n = (if - (2 ^ 63) \<le> n \<and> n < 2 ^ 63 then Inr (word_of_int n) else Inl OverflowError)"

definition hdr_set_int :: "shm \<Rightarrow> nat \<Rightarrow> int \<Rightarrow> (error + unit) \<times> shm" where
  "hdr_set_int s i n =
     (case np_int64 n of Inl e \<Rightarrow> (Inl e, s) | Inr v \<Rightarrow> (Inr (), hdr_set s i v))"

text \<open>\<open>_init_header\<close>: eight stores, in the source's order; a store that overflows leaves the
  earlier ones done.\<close>

definition init_header :: "shm \<Rightarrow> int \<Rightarrow> int \<Rightarrow> (error + unit) \<times> shm" where
  "init_header s num_slots slot_size =
     (case make_header_array s of Inl e \<Rightarrow> (Inl e, s) | Inr _ \<Rightarrow>
      let s = hdr_set s IDX_MAGIC (word_of_int MAGIC);
          s = hdr_set s IDX_VERSION (word_of_int VERSION);
          s = hdr_set s IDX_HEAD 0;
          s = hdr_set s IDX_TAIL 0;
          s = hdr_set s IDX_MSG_COUNT 0;
          s = hdr_set s IDX_DROP_COUNT 0
      in (case hdr_set_int s IDX_NUM_SLOTS num_slots of
            (Inl e, s) \<Rightarrow> (Inl e, s)
          | (Inr _, s) \<Rightarrow> hdr_set_int s IDX_SLOT_SIZE slot_size))"

text \<open>\<open>_validate_header\<close>: the magic number first, then the version.\<close>

definition validate_header :: "shm \<Rightarrow> error + unit" where
  "validate_header s =
     (case make_header_array s of Inl e \<Rightarrow> Inl e | Inr _ \<Rightarrow>
      if sint (hdr_get s IDX_MAGIC) \<noteq> MAGIC then Inl SHMConnectionError
      else if sint (hdr_get s IDX_VERSION) \<noteq> VERSION then Inl SHMConnectionError
      else Inr ())"

section \<open>Slot input and output (\<open>buffer.py\<close>)\<close>

text \<open>
  \<open>struct.Struct("<I")\<close>: \<open>pack_into\<close> and \<open>unpack_from\<close> accept a negative offset, counted
  from the end of the buffer, and raise \<open>struct.error\<close> when four bytes do not fit or the
  value is not an unsigned 32-bit number; an offset that is no \<open>Py_ssize_t\<close> raises
  \<open>OverflowError\<close>.
\<close>

definition struct_offset :: "nat \<Rightarrow> int \<Rightarrow> error + nat" where
  "struct_offset len offset =
     (if offset < - (2 ^ 63) \<or> 2 ^ 63 \<le> offset then Inl OverflowError
      else if offset < 0 \<and> offset + 4 > 0 then Inl StructError
      else if offset < 0 \<and> offset + int len < 0 then Inl StructError
      else let off = (if offset < 0 then offset + int len else offset)
           in if int len - off < 4 then Inl StructError else Inr (nat off))"

definition pack_into :: "bytes \<Rightarrow> int \<Rightarrow> int \<Rightarrow> error + bytes" where
  "pack_into b offset v =
     (case struct_offset (length b) offset of Inl e \<Rightarrow> Inl e | Inr off \<Rightarrow>
      if v < 0 \<or> 2 ^ 32 \<le> v then Inl StructError
      else Inr (buf_store b off (le_encode 4 (nat v))))"

definition unpack_from :: "bytes \<Rightarrow> int \<Rightarrow> error + int" where
  "unpack_from b offset =
     (case struct_offset (length b) offset of Inl e \<Rightarrow> Inl e | Inr off \<Rightarrow>
      Inr (int (le_decode (buf_load b off 4))))"

text \<open>
  Slicing a memoryview: both indices are adjusted as Python does (a negative index counts
  from the end, and the result is clipped to the buffer).  Assigning to a slice raises
  \<open>ValueError\<close> unless the right-hand side has the slice's length.
\<close>

definition slice_index :: "nat \<Rightarrow> int \<Rightarrow> nat" where
  "slice_index len i =
     (if i < 0 then (if i + int len < 0 then 0 else nat (i + int len))
      else if int len \<le> i then len else nat i)"

definition slice_get :: "bytes \<Rightarrow> int \<Rightarrow> int \<Rightarrow> bytes" where
  "slice_get b start stop =
     (let lo = slice_index (length b) start; hi = slice_index (length b) stop
      in buf_load b lo (hi - lo))"

definition slice_set :: "bytes \<Rightarrow> int \<Rightarrow> int \<Rightarrow> bytes \<Rightarrow> error + bytes" where
  "slice_set b start stop payload =
     (let lo = slice_index (length b) start; hi = slice_index (length b) stop
      in if length payload \<noteq> hi - lo then Inl ValueError
         else Inr (buf_store b lo payload))"

definition slot_offset :: "int \<Rightarrow> int \<Rightarrow> int" where
  "slot_offset slot_index slot_size = HEADER_SIZE + slot_index * slot_size"

text \<open>\<open>_write_slot\<close>: the length prefix is stored first; when the slice assignment then
  raises, the prefix stays written.\<close>

definition write_slot :: "shm \<Rightarrow> int \<Rightarrow> int \<Rightarrow> bytes \<Rightarrow> (error + unit) \<times> shm" where
  "write_slot s slot_index slot_size payload =
     (let offset = slot_offset slot_index slot_size
      in case pack_into (buf s) offset (int (length payload)) of
           Inl e \<Rightarrow> (Inl e, s)
         | Inr b1 \<Rightarrow>
             let stop = offset + SLOT_PREFIX_SIZE + int (length payload)
             in (case slice_set b1 (offset + SLOT_PREFIX_SIZE) stop payload of
                   Inl e \<Rightarrow> (Inl e, s\<lparr>buf := b1\<rparr>)
                 | Inr b2 \<Rightarrow> (Inr (), s\<lparr>buf := b2\<rparr>)))"

definition read_slot :: "shm \<Rightarrow> int \<Rightarrow> int \<Rightarrow> error + bytes" where
  "read_slot s slot_index slot_size =
     (let offset = slot_offset slot_index slot_size
      in case unpack_from (buf s) offset of
           Inl e \<Rightarrow> Inl e
         | Inr payload_size \<Rightarrow>
             let start = offset + SLOT_PREFIX_SIZE
             in Inr (slice_get (buf s) start (start + payload_size)))"

section \<open>The environment of a blocking call\<close>

text \<open>
  A blocking call reads the monotonic clock and sleeps, and while it sleeps the other
  processes of the channel run.  The environment fixes what the call observes:
  \<^item> \<open>clock E k\<close> is the value of the \<open>k\<close>-th call of \<open>time.monotonic()\<close>
    (counted from 0 within one library call);
  \<^item> \<open>pulls E j\<close> is the number of \<open>read_message_shared_tail\<close> calls the consumers
    of the ring complete during the \<open>j\<close>-th sleep of a blocked producer (the only
    operation of a consumer that writes to the segment);
  \<^item> \<open>shm_open E k name\<close> is the outcome of the \<open>k\<close>-th
    \<open>SharedMemory(name=name, create=False)\<close> of an attaching process: the bytes of the
    segment, or the exception (\<open>FileNotFoundError\<close> while no segment has that name).
\<close>

record env =
  clock :: "nat \<Rightarrow> real"
  pulls :: "nat \<Rightarrow> nat"
  shm_open :: "nat \<Rightarrow> string \<Rightarrow> error + bytes"

section \<open>The consumer side (\<open>buffer.py\<close>)\<close>

definition read_message_spsc :: "shm \<Rightarrow> int \<Rightarrow> error + (bytes \<times> int) option" where
  "read_message_spsc s local_tail =
     (case get_header s of Inl e \<Rightarrow> Inl e | Inr _ \<Rightarrow>
      let head = sint (hdr_get s IDX_HEAD);
          num_slots = sint (hdr_get s IDX_NUM_SLOTS);
          slot_size = sint (hdr_get s IDX_SLOT_SIZE)
      in if local_tail = head then Inr None
         else (case read_slot s local_tail slot_size of
                 Inl e \<Rightarrow> Inl e
               | Inr payload \<Rightarrow>
                   if num_slots = 0 then Inl ZeroDivisionError
                   else Inr (Some (payload, (local_tail + 1) mod num_slots))))"

definition read_message_shared_tail :: "shm \<Rightarrow> (error + bytes option) \<times> shm" where
  "read_message_shared_tail s =
     (case get_header s of Inl e \<Rightarrow> (Inl e, s) | Inr _ \<Rightarrow>
      let head = sint (hdr_get s IDX_HEAD);
          tail = sint (hdr_get s IDX_TAIL);
          num_slots = sint (hdr_get s IDX_NUM_SLOTS);
          slot_size = sint (hdr_get s IDX_SLOT_SIZE)
      in if tail = head then (Inr None, s)
         else (case read_slot s tail slot_size of
                 Inl e \<Rightarrow> (Inl e, s)
               | Inr payload \<Rightarrow>
                   if num_slots = 0 then (Inl ZeroDivisionError, s)
                   else (case np_int64 ((tail + 1) mod num_slots) of
                           Inl e \<Rightarrow> (Inl e, s)
                         | Inr v \<Rightarrow> (Inr (Some payload), hdr_set s IDX_TAIL v))))"

text \<open>What the consumers do to the segment during one sleep of the producer.\<close>

fun consumers_run :: "nat \<Rightarrow> shm \<Rightarrow> shm" where
  "consumers_run 0 s = s"
| "consumers_run (Suc n) s = consumers_run n (snd (read_message_shared_tail s))"

section \<open>The producer side (\<open>buffer.py\<close>)\<close>

text \<open>
  The \<open>while True\<close> loop of the non-overwrite path.  Iteration \<open>j\<close> loads \<open>HEAD\<close> and
  \<open>TAIL\<close>; on a full ring it drops (non-blocking), raises once the clock has reached
  the deadline, or sleeps 50 microseconds and goes round again.  The loop need not end
  (\<open>block=True\<close> with no timeout on a ring that stays full), so its result is an option:
  \<open>None\<close> is the call that never returns.
\<close>

datatype wait_outcome = SlotFree | Dropped

partial_function (option) wait_for_slot ::
  "env \<Rightarrow> real option \<Rightarrow> bool \<Rightarrow> int \<Rightarrow> nat \<Rightarrow> shm \<Rightarrow> ((error + wait_outcome) \<times> shm) option" where
  "wait_for_slot E deadline block num_slots j s =
     (let head = sint (hdr_get s IDX_HEAD);
          tail = sint (hdr_get s IDX_TAIL)
      in if num_slots = 0 then Some (Inl ZeroDivisionError, s)
         else if (head + 1) mod num_slots \<noteq> tail then Some (Inr SlotFree, s)
         else if \<not> block then
           Some (Inr Dropped, hdr_set s IDX_DROP_COUNT (hdr_get s IDX_DROP_COUNT + 1))
         else if (case deadline of None \<Rightarrow> False | Some d \<Rightarrow> d \<le> clock E (Suc j)) then
           Some (Inl SHMBufferFullError, s)
         else wait_for_slot E deadline block num_slots (Suc j) (consumers_run (pulls E j) s))"

text \<open>Lines 159 to 171: write the slot at \<open>HEAD\<close>, then commit by advancing \<open>HEAD\<close>,
  then count the message.\<close>

definition write_commit :: "shm \<Rightarrow> int \<Rightarrow> int \<Rightarrow> bytes \<Rightarrow> (error + bool) \<times> shm" where
  "write_commit s num_slots slot_size payload =
     (let head = sint (hdr_get s IDX_HEAD)
      in if num_slots = 0 then (Inl ZeroDivisionError, s)
         else let next_head = (head + 1) mod num_slots
              in (case write_slot s head slot_size payload of
                    (Inl e, s1) \<Rightarrow> (Inl e, s1)
                  | (Inr _, s1) \<Rightarrow>
                      (case hdr_set_int s1 IDX_HEAD next_head of
                         (Inl e, s2) \<Rightarrow> (Inl e, s2)
                       | (Inr _, s2) \<Rightarrow>
                           (Inr True, hdr_set s2 IDX_MSG_COUNT (hdr_get s2 IDX_MSG_COUNT + 1)))))"

definition write_message ::
  "env \<Rightarrow> shm \<Rightarrow> bytes \<Rightarrow> bool \<Rightarrow> real option \<Rightarrow> bool \<Rightarrow> ((error + bool) \<times> shm) option" where
  "write_message E s payload block timeout overwrite =
     (case get_header s of Inl e \<Rightarrow> Some (Inl e, s) | Inr _ \<Rightarrow>
      let num_slots = sint (hdr_get s IDX_NUM_SLOTS);
          slot_size = sint (hdr_get s IDX_SLOT_SIZE);
          max_payload = slot_size - SLOT_PREFIX_SIZE
      in if int (length payload) > max_payload then Some (Inl ValueError, s)
         else if \<not> overwrite then
           (let deadline = (case timeout of
                              None \<Rightarrow> None
                            | Some t \<Rightarrow> if block then Some (clock E 0 + t) else None)
            in case wait_for_slot E deadline block num_slots 0 s of
                 None \<Rightarrow> None
               | Some (Inl e, s1) \<Rightarrow> Some (Inl e, s1)
               | Some (Inr Dropped, s1) \<Rightarrow> Some (Inr False, s1)
               | Some (Inr SlotFree, s1) \<Rightarrow> Some (write_commit s1 num_slots slot_size payload))
         else Some (write_commit s num_slots slot_size payload))"

section \<open>Serialization (\<open>serialize.py\<close>)\<close>

text \<open>
  A Python value handed to \<open>serialize\<close>: one of the three bytes-like types, with its
  content, or any other object.  The two codecs are external: \<open>pickle.dumps\<close> and
  \<open>msgpack.packb\<close> are parameters, \<open>None\<close> when they raise, and \<open>msgpack_available\<close> tells
  whether the \<open>msgpack\<close> package could be imported.
\<close>

datatype 'a pyobj = PyBytes bytes | PyBytearray bytes | PyMemoryview bytes | PyObject 'a

record 'a codec =
  pickle_dumps :: "'a \<Rightarrow> bytes option"
  msgpack_available :: bool
  msgpack_packb :: "'a \<Rightarrow> bytes option"

fun serialize :: "'a codec \<Rightarrow> 'a pyobj \<Rightarrow> string \<Rightarrow> error + bytes" where
  "serialize c (PyBytes b) method = Inr b"
| "serialize c (PyBytearray b) method = Inr b"
| "serialize c (PyMemoryview b) method = Inr b"
| "serialize c (PyObject x) method =
     (if method = ''pickle'' then
        (case pickle_dumps c x of None \<Rightarrow> Inl SHMSerializationError | Some b \<Rightarrow> Inr b)
      else if method = ''msgpack'' then
        (if \<not> msgpack_available c then Inl SHMSerializationError
         else (case msgpack_packb c x of None \<Rightarrow> Inl SHMSerializationError | Some b \<Rightarrow> Inr b))
      else Inl SHMSerializationError)"

text \<open>\<open>isinstance(obj, (bytes, bytearray, memoryview))\<close>\<close>

fun is_bytes_like :: "'a pyobj \<Rightarrow> bool" where
  "is_bytes_like (PyObject x) = False"
| "is_bytes_like _ = True"

fun content :: "'a pyobj \<Rightarrow> bytes" where
  "content (PyBytes b) = b"
| "content (PyBytearray b) = b"
| "content (PyMemoryview b) = b"
| "content (PyObject x) = []"

section \<open>Attaching to a segment (\<open>core.py\<close>)\<close>

text \<open>One attempt of \<open>attach_segment\<close>: open the segment by name, then validate its header.\<close>

definition attach_try :: "env \<Rightarrow> string \<Rightarrow> nat \<Rightarrow> error + shm" where
  "attach_try E name k =
     (case shm_open E k name of
        Inl e \<Rightarrow> Inl e
      | Inr b \<Rightarrow>
          (let s = \<lparr>shm_name = name, buf = b\<rparr>
           in case validate_header s of Inl e \<Rightarrow> Inl e | Inr _ \<Rightarrow> Inr s))"

text \<open>
  The loop \<open>while time.monotonic() < deadline\<close>.  Attempt \<open>k\<close> follows the clock reading
  \<open>Suc k\<close> (reading 0 fixed the deadline).  \<open>FileNotFoundError\<close> and any exception other
  than \<open>SHMConnectionError\<close> are remembered and the loop sleeps \<open>poll_interval\<close> (the
  first and the third \<open>except\<close> clause); \<open>SHMConnectionError\<close> is raised again at once.  The result carries the sleeps made, in
  order.  The loop need not end (a clock that never reaches the deadline), hence the option.
\<close>

partial_function (option) attach_poll ::
  "env \<Rightarrow> string \<Rightarrow> real \<Rightarrow> real \<Rightarrow> nat \<Rightarrow> real list \<Rightarrow> ((error + shm) \<times> real list) option" where
  "attach_poll E name deadline poll_interval k naps =
     (if clock E (Suc k) < deadline then
        (case attach_try E name k of
           Inr s \<Rightarrow> Some (Inr s, naps)
         | Inl e \<Rightarrow>
             if e \<noteq> FileNotFoundError \<and> e = SHMConnectionError
             then Some (Inl SHMConnectionError, naps)
             else attach_poll E name deadline poll_interval (Suc k) (naps @ [poll_interval]))
      else Some (Inl SHMConnectionError, naps))"

text \<open>\<open>attach_segment(name, timeout=5.0, poll_interval=0.005)\<close>: an argument that the caller
  leaves out is \<open>None\<close> and takes its default.\<close>

definition attach_segment ::
  "env \<Rightarrow> string \<Rightarrow> real option \<Rightarrow> real option \<Rightarrow> ((error + shm) \<times> real list) option" where
  "attach_segment E name timeout poll_interval =
     (let timeout = (case timeout of None \<Rightarrow> 5 | Some t \<Rightarrow> t);
          poll_interval = (case poll_interval of None \<Rightarrow> 5 / 1000 | Some d \<Rightarrow> d);
          deadline = clock E 0 + timeout
      in attach_poll E name deadline poll_interval 0 [])"

section \<open>Closing a segment (\<open>core.py\<close>)\<close>

text \<open>
  The names of the shared-memory objects that exist on the host.  \<open>shm.close()\<close> unmaps the
  caller's view and leaves the names alone; \<open>shm.unlink()\<close> removes the name and raises
  \<open>FileNotFoundError\<close> when it is gone already.
\<close>

type_synonym os_names = "string set"

definition SharedMemory_close :: "os_names \<Rightarrow> shm \<Rightarrow> error + os_names" where
  "SharedMemory_close os s = Inr os"

definition SharedMemory_unlink :: "os_names \<Rightarrow> shm \<Rightarrow> error + os_names" where
  "SharedMemory_unlink os s =
     (if shm_name s \<in> os then Inr (os - {shm_name s}) else Inl FileNotFoundError)"

text \<open>\<open>close_segment\<close>: every exception of \<open>close\<close> and \<open>unlink\<close> is caught and logged.\<close>

definition close_segment :: "os_names \<Rightarrow> shm \<Rightarrow> bool \<Rightarrow> os_names" where
  "close_segment os s destroy =
     (case SharedMemory_close os s of
        Inl e \<Rightarrow> os
      | Inr os1 \<Rightarrow>
          if destroy then (case SharedMemory_unlink os1 s of Inl e \<Rightarrow> os1 | Inr os2 \<Rightarrow> os2)
          else os1)"

section \<open>Segment names (\<open>utils.py\<close>)\<close>

definition pub_segment_name :: "string \<Rightarrow> string" where
  "pub_segment_name channel = ''shmcomm_pub_'' @ channel"

definition req_segment_name :: "string \<Rightarrow> string" where
  "req_segment_name channel = ''shmcomm_req_'' @ channel"

definition rep_segment_name :: "string \<Rightarrow> string" where
  "rep_segment_name channel = ''shmcomm_rep_'' @ channel"

definition push_segment_name :: "string \<Rightarrow> string" where
  "push_segment_name channel = ''shmcomm_push_'' @ channel"


section \<open>The endpoints (\<open>patterns/\<close>)\<close>

text \<open>
  An endpoint is a record of the attributes its class sets in \<open>__init__\<close>; \<open>_shm\<close> is \<open>None\<close>
  once the endpoint is closed.  The segment in a handle stands for the shared memory as
  the endpoint's call finds it.  A method takes the endpoint (and the host's names when it
  closes a segment) and returns them updated.
\<close>

record publisher =
  pub_name :: string
  pub_serialization :: string
  pub_shm_name :: string
  pub_shm :: "shm option"

record subscriber =
  sub_name :: string
  sub_serialization :: string
  sub_shm_name :: string
  sub_shm :: "shm option"
  sub_tail :: int

record pusher =
  push_name :: string
  push_serialization :: string
  push_shm_name :: string
  push_shm :: "shm option"

record puller =
  pull_name :: string
  pull_serialization :: string
  pull_shm_name :: string
  pull_shm :: "shm option"

record replier =
  rep_name :: string
  rep_serialization :: string
  rep_req_shm :: "shm option"
  rep_rep_shm :: "shm option"
  rep_req_tail :: int

record requester =
  req_name :: string
  req_serialization :: string
  req_req_shm :: "shm option"
  req_rep_shm :: "shm option"
  req_rep_tail :: int

subsection \<open>Publisher and Subscriber (\<open>pubsub.py\<close>)\<close>

text \<open>\<open>Publisher.send\<close> and \<open>send_bytes\<close>: \<open>block\<close> and \<open>timeout\<close> are ignored, the write
  overwrites.  On a closed publisher \<open>write_message(None, \<dots>)\<close> raises \<open>AttributeError\<close>.\<close>

definition Publisher_send_bytes ::
  "env \<Rightarrow> publisher \<Rightarrow> bytes \<Rightarrow> ((error + bool) \<times> publisher) option" where
  "Publisher_send_bytes E pub payload =
     (case pub_shm pub of
        None \<Rightarrow> Some (Inl AttributeError, pub)
      | Some s \<Rightarrow>
          (case write_message E s payload False None True of
             None \<Rightarrow> None
           | Some (r, s') \<Rightarrow> Some (r, pub\<lparr>pub_shm := Some s'\<rparr>)))"

definition Publisher_send ::
  "'a codec \<Rightarrow> env \<Rightarrow> publisher \<Rightarrow> 'a pyobj \<Rightarrow> ((error + bool) \<times> publisher) option" where
  "Publisher_send c E pub data =
     (case serialize c data (pub_serialization pub) of
        Inl e \<Rightarrow> Some (Inl e, pub)
      | Inr payload \<Rightarrow> Publisher_send_bytes E pub payload)"

definition Publisher_close :: "publisher \<Rightarrow> os_names \<Rightarrow> publisher \<times> os_names" where
  "Publisher_close pub os =
     (case pub_shm pub of
        None \<Rightarrow> (pub, os)
      | Some s \<Rightarrow> (pub\<lparr>pub_shm := None\<rparr>, close_segment os s True))"

text \<open>\<open>Subscriber.__init__\<close>: attach, then start the private cursor at the current \<open>HEAD\<close>.\<close>

definition Subscriber_init ::
  "env \<Rightarrow> string \<Rightarrow> real \<Rightarrow> string \<Rightarrow> (error + subscriber) option" where
  "Subscriber_init E name timeout_connect serialization =
     (case attach_segment E (pub_segment_name name) (Some timeout_connect) None of
        None \<Rightarrow> None
      | Some (Inl e, naps) \<Rightarrow> Some (Inl e)
      | Some (Inr s, naps) \<Rightarrow>
          (case get_header s of
             Inl e \<Rightarrow> Some (Inl e)
           | Inr _ \<Rightarrow>
               Some (Inr \<lparr>sub_name = name, sub_serialization = serialization,
                          sub_shm_name = pub_segment_name name, sub_shm = Some s,
                          sub_tail = sint (hdr_get s IDX_HEAD)\<rparr>)))"

definition Subscriber_try_recv_bytes :: "subscriber \<Rightarrow> (error + bytes option) \<times> subscriber" where
  "Subscriber_try_recv_bytes sub =
     (case sub_shm sub of
        None \<Rightarrow> (Inl AttributeError, sub)
      | Some s \<Rightarrow>
          (case read_message_spsc s (sub_tail sub) of
             Inl e \<Rightarrow> (Inl e, sub)
           | Inr None \<Rightarrow> (Inr None, sub)
           | Inr (Some (raw, new_tail)) \<Rightarrow> (Inr (Some raw), sub\<lparr>sub_tail := new_tail\<rparr>)))"

definition Subscriber_close :: "subscriber \<Rightarrow> os_names \<Rightarrow> subscriber \<times> os_names" where
  "Subscriber_close sub os =
     (case sub_shm sub of
        None \<Rightarrow> (sub, os)
      | Some s \<Rightarrow> (sub\<lparr>sub_shm := None\<rparr>, close_segment os s False))"

subsection \<open>Pusher and Puller (\<open>pipeline.py\<close>)\<close>

definition Pusher_close :: "pusher \<Rightarrow> os_names \<Rightarrow> pusher \<times> os_names" where
  "Pusher_close push os =
     (case push_shm push of
        None \<Rightarrow> (push, os)
      | Some s \<Rightarrow> (push\<lparr>push_shm := None\<rparr>, close_segment os s True))"

definition Puller_close :: "puller \<Rightarrow> os_names \<Rightarrow> puller \<times> os_names" where
  "Puller_close pull os =
     (case pull_shm pull of
        None \<Rightarrow> (pull, os)
      | Some s \<Rightarrow> (pull\<lparr>pull_shm := None\<rparr>, close_segment os s False))"

subsection \<open>Replier and Requester (\<open>reqrep.py\<close>)\<close>

text \<open>\<open>close\<close> loops over the two attributes \<open>_req_shm\<close> and \<open>_rep_shm\<close>, in this order.\<close>

definition Replier_close :: "replier \<Rightarrow> os_names \<Rightarrow> replier \<times> os_names" where
  "Replier_close rep os =
     (let (rep, os) =
            (case rep_req_shm rep of
               None \<Rightarrow> (rep, os)
             | Some s \<Rightarrow> (rep\<lparr>rep_req_shm := None\<rparr>, close_segment os s True))
      in case rep_rep_shm rep of
           None \<Rightarrow> (rep, os)
         | Some s \<Rightarrow> (rep\<lparr>rep_rep_shm := None\<rparr>, close_segment os s True))"

text \<open>\<open>Requester.__init__\<close>: attach to the request segment, then to the reply segment (each
  call of \<open>attach_segment\<close> with its own environment), and start the private cursor on the
  reply channel at 0.\<close>

definition Requester_init ::
  "env \<Rightarrow> env \<Rightarrow> string \<Rightarrow> real \<Rightarrow> string \<Rightarrow> (error + requester) option" where
  "Requester_init E1 E2 name timeout_connect serialization =
     (case attach_segment E1 (req_segment_name name) (Some timeout_connect) None of
        None \<Rightarrow> None
      | Some (Inl e, naps) \<Rightarrow> Some (Inl e)
      | Some (Inr req_shm, naps) \<Rightarrow>
          (case attach_segment E2 (rep_segment_name name) (Some timeout_connect) None of
             None \<Rightarrow> None
           | Some (Inl e, naps) \<Rightarrow> Some (Inl e)
           | Some (Inr rep_shm, naps) \<Rightarrow>
               Some (Inr \<lparr>req_name = name, req_serialization = serialization,
                          req_req_shm = Some req_shm, req_rep_shm = Some rep_shm,
                          req_rep_tail = 0\<rparr>)))"

definition Requester_try_recv_bytes :: "requester \<Rightarrow> (error + bytes option) \<times> requester" where
  "Requester_try_recv_bytes req =
     (case req_rep_shm req of
        None \<Rightarrow> (Inl AttributeError, req)
      | Some s \<Rightarrow>
          (case read_message_spsc s (req_rep_tail req) of
             Inl e \<Rightarrow> (Inl e, req)
           | Inr None \<Rightarrow> (Inr None, req)
           | Inr (Some (raw, new_tail)) \<Rightarrow> (Inr (Some raw), req\<lparr>req_rep_tail := new_tail\<rparr>)))"

definition Requester_close :: "requester \<Rightarrow> os_names \<Rightarrow> requester \<times> os_names" where
  "Requester_close req os =
     (let (req, os) =
            (case req_req_shm req of
               None \<Rightarrow> (req, os)
             | Some s \<Rightarrow> (req\<lparr>req_req_shm := None\<rparr>, close_segment os s False))
      in case req_rep_shm req of
           None \<Rightarrow> (req, os)
         | Some s \<Rightarrow> (req\<lparr>req_rep_shm := None\<rparr>, close_segment os s False))"

subsection \<open>Any endpoint\<close>

datatype endpoint =
    APublisher publisher
  | ASubscriber subscriber
  | APusher pusher
  | APuller puller
  | AReplier replier
  | ARequester requester

fun endpoint_close :: "endpoint \<Rightarrow> os_names \<Rightarrow> endpoint \<times> os_names" where
  "endpoint_close (APublisher x) os = map_prod APublisher id (Publisher_close x os)"
| "endpoint_close (ASubscriber x) os = map_prod ASubscriber id (Subscriber_close x os)"
| "endpoint_close (APusher x) os = map_prod APusher id (Pusher_close x os)"
| "endpoint_close (APuller x) os = map_prod APuller id (Puller_close x os)"
| "endpoint_close (AReplier x) os = map_prod AReplier id (Replier_close x os)"
| "endpoint_close (ARequester x) os = map_prod ARequester id (Requester_close x os)"

text \<open>The segments an endpoint still holds, and the names of those it owns (the owner
  created them and destroys them on close).\<close>

fun segments_held :: "endpoint \<Rightarrow> shm list" where
  "segments_held (APublisher x) = (case pub_shm x of None \<Rightarrow> [] | Some s \<Rightarrow> [s])"
| "segments_held (ASubscriber x) = (case sub_shm x of None \<Rightarrow> [] | Some s \<Rightarrow> [s])"
| "segments_held (APusher x) = (case push_shm x of None \<Rightarrow> [] | Some s \<Rightarrow> [s])"
| "segments_held (APuller x) = (case pull_shm x of None \<Rightarrow> [] | Some s \<Rightarrow> [s])"
| "segments_held (AReplier x) =
     (case rep_req_shm x of None \<Rightarrow> [] | Some s \<Rightarrow> [s])
     @ (case rep_rep_shm x of None \<Rightarrow> [] | Some s \<Rightarrow> [s])"
| "segments_held (ARequester x) =
     (case req_req_shm x of None \<Rightarrow> [] | Some s \<Rightarrow> [s])
     @ (case req_rep_shm x of None \<Rightarrow> [] | Some s \<Rightarrow> [s])"

fun is_owner :: "endpoint \<Rightarrow> bool" where
  "is_owner (APublisher x) = True"
| "is_owner (APusher x) = True"
| "is_owner (AReplier x) = True"
| "is_owner _ = False"

section \<open>Notions used to state the properties\<close>

text \<open>The bytes a slot's write leaves in the buffer.\<close>

definition slot_image :: "bytes \<Rightarrow> nat \<Rightarrow> bytes \<Rightarrow> bytes" where
  "slot_image b off payload =
     buf_store (buf_store b off (le_encode 4 (length payload))) (off + 4) payload"

text \<open>A slot that holds a message: its length prefix and then its bytes, inside the buffer.\<close>

definition slot_holds :: "bytes \<Rightarrow> nat \<Rightarrow> bytes \<Rightarrow> bool" where
  "slot_holds b off m \<longleftrightarrow>
     off + 4 + length m \<le> length b \<and> length m < 2 ^ 32
     \<and> buf_load b off 4 = le_encode 4 (length m)
     \<and> buf_load b (off + 4) (length m) = m"

text \<open>The segment after a committed write, and after a counted drop.\<close>

definition after_write :: "shm \<Rightarrow> int \<Rightarrow> int \<Rightarrow> bytes \<Rightarrow> shm" where
  "after_write s num_slots slot_size payload =
     (let head = sint (hdr_get s IDX_HEAD);
          s1 = s\<lparr>buf := slot_image (buf s) (nat (slot_offset head slot_size)) payload\<rparr>;
          s2 = hdr_set s1 IDX_HEAD (word_of_int ((head + 1) mod num_slots))
      in hdr_set s2 IDX_MSG_COUNT (hdr_get s2 IDX_MSG_COUNT + 1))"

definition after_drop :: "shm \<Rightarrow> shm" where
  "after_drop s = hdr_set s IDX_DROP_COUNT (hdr_get s IDX_DROP_COUNT + 1)"

text \<open>Two segments that differ at most in the \<open>TAIL\<close> cell: what the consumers of a ring
  may change while its producer sleeps.\<close>

definition tail_only :: "shm \<Rightarrow> shm \<Rightarrow> bool" where
  "tail_only s s' \<longleftrightarrow>
     shm_name s' = shm_name s \<and> length (buf s') = length (buf s)
     \<and> (\<forall>i<16. i \<noteq> IDX_TAIL \<longrightarrow> hdr_get s' i = hdr_get s i)
     \<and> drop 128 (buf s') = drop 128 (buf s)"

text \<open>A producer that writes the payloads of a list one after the other (the loop of the
  tests); \<open>None\<close> when a call raises or never returns.\<close>

fun write_each ::
  "env \<Rightarrow> bool \<Rightarrow> real option \<Rightarrow> bool \<Rightarrow> shm \<Rightarrow> bytes list \<Rightarrow> (bool list \<times> shm) option" where
  "write_each E block timeout overwrite s [] = Some ([], s)"
| "write_each E block timeout overwrite s (p # ps) =
     (case write_message E s p block timeout overwrite of
        Some (Inr ok, s1) \<Rightarrow>
          (case write_each E block timeout overwrite s1 ps of
             Some (oks, s2) \<Rightarrow> Some (ok # oks, s2)
           | None \<Rightarrow> None)
      | _ \<Rightarrow> None)"

text \<open>A segment whose header records the geometry \<open>n\<close> slots of \<open>sz\<close> bytes and whose buffer
  holds them.\<close>

definition ring_ok :: "shm \<Rightarrow> nat \<Rightarrow> nat \<Rightarrow> bool" where
  "ring_ok s n sz \<longleftrightarrow>
     sint (hdr_get s IDX_NUM_SLOTS) = int n \<and> sint (hdr_get s IDX_SLOT_SIZE) = int sz
     \<and> 0 < n \<and> 4 \<le> sz \<and> 128 + n * sz \<le> length (buf s) \<and> length (buf s) < 2 ^ 63"

text \<open>A consumer that calls \<open>read_message_spsc\<close> with its private cursor until the ring is
  empty, at most \<open>k\<close> times: the payloads it received, in order, and its cursor.\<close>

fun read_each :: "nat \<Rightarrow> shm \<Rightarrow> int \<Rightarrow> error + (bytes list \<times> int)" where
  "read_each 0 s local_tail = Inr ([], local_tail)"
| "read_each (Suc k) s local_tail =
     (case read_message_spsc s local_tail of
        Inl e \<Rightarrow> Inl e
      | Inr None \<Rightarrow> Inr ([], local_tail)
      | Inr (Some (payload, new_tail)) \<Rightarrow>
          (case read_each k s new_tail of
             Inl e \<Rightarrow> Inl e
           | Inr (ps, t) \<Rightarrow> Inr (payload # ps, t)))"

text \<open>A ring into which the messages \<open>ms\<close> were written, from \<open>HEAD = 0\<close>: the \<open>i\<close>-th message
  is in slot \<open>i mod n\<close> unless a later one has replaced it.\<close>

definition ring_holds :: "shm \<Rightarrow> nat \<Rightarrow> nat \<Rightarrow> bytes list \<Rightarrow> bool" where
  "ring_holds s n sz ms \<longleftrightarrow>
     ring_ok s n sz \<and> sint (hdr_get s IDX_HEAD) = int (length ms mod n)
     \<and> (\<forall>i<length ms. length ms \<le> i + n \<longrightarrow>
           slot_holds (buf s) (128 + (i mod n) * sz) (ms ! i) \<and> length (ms ! i) + 4 \<le> sz)"

text \<open>The segment after the committed writes of a list of payloads.\<close>

definition after_writes :: "shm \<Rightarrow> int \<Rightarrow> int \<Rightarrow> bytes list \<Rightarrow> shm" where
  "after_writes s num_slots slot_size ps = fold (\<lambda>p s. after_write s num_slots slot_size p) ps s"

text \<open>The segment as a blocked producer finds it at iteration \<open>j\<close> of its loop, after \<open>j\<close>
  sleeps during which the consumers ran.\<close>

fun producer_sees :: "env \<Rightarrow> nat \<Rightarrow> shm \<Rightarrow> shm" where
  "producer_sees E 0 s = s"
| "producer_sees E (Suc j) s = consumers_run (pulls E j) (producer_sees E j s)"

text \<open>The producer's test of a full ring: \<open>next_head == tail\<close>.\<close>

definition ring_full :: "shm \<Rightarrow> bool" where
  "ring_full s \<longleftrightarrow>
     (sint (hdr_get s IDX_HEAD) + 1) mod sint (hdr_get s IDX_NUM_SLOTS) = sint (hdr_get s IDX_TAIL)"

section \<open>Example inputs\<close>

text \<open>An environment in which the clock advances one second per reading, no consumer runs
  and no segment exists.\<close>

definition quiet_env :: env where
  "quiet_env = \<lparr>clock = (\<lambda>k. real k), pulls = (\<lambda>_. 0), shm_open = (\<lambda>_ _. Inl FileNotFoundError)\<rparr>"

text \<open>The segment \<open>create_segment\<close> hands out for a geometry: a zero-filled buffer of
  \<open>segment_size\<close> bytes whose header \<open>_init_header\<close> has written.\<close>

definition fresh_segment :: "nat \<Rightarrow> nat \<Rightarrow> shm" where
  "fresh_segment n sz =
     snd (init_header \<lparr>shm_name = ''shmcomm_test_buf'', buf = replicate (128 + n * sz) 0\<rparr>
            (int n) (int sz))"

text \<open>An environment in which one consumer claims one message during the producer's first
  sleep.\<close>

definition prompt_env :: env where
  "prompt_env = \<lparr>clock = (\<lambda>k. real k), pulls = (\<lambda>j. if j = 0 then 1 else 0),
                  shm_open = (\<lambda>_ _. Inl FileNotFoundError)\<rparr>"

text \<open>A ring of two slots that holds one message: it is full.\<close>

definition full_ring :: shm where
  "full_ring = after_write (fresh_segment 2 8) 2 8 [7]"

text \<open>A codec over natural numbers: \<open>pickle\<close> encodes a number as one byte, \<open>msgpack\<close> is
  not installed.\<close>

definition example_codec :: "nat codec" where
  "example_codec = \<lparr>pickle_dumps = (\<lambda>n. Some [of_nat n]), msgpack_available = False,
                     msgpack_packb = (\<lambda>_. None)\<rparr>"

text \<open>An open publisher on the channel \<open>c1\<close>.\<close>

definition example_publisher :: publisher where
  "example_publisher = \<lparr>pub_name = ''c1'', pub_serialization = ''json'',
                         pub_shm_name = pub_segment_name ''c1'',
                         pub_shm = Some ((fresh_segment 2 8)\<lparr>shm_name := pub_segment_name ''c1''\<rparr>)\<rparr>"

text \<open>An environment in which the segment appears, with the header of a fresh segment, at
  the second attempt to open it.\<close>

definition late_env :: env where
  "late_env = \<lparr>clock = (\<lambda>k. real k), pulls = (\<lambda>_. 0),
                shm_open = (\<lambda>k _. if k = 0 then Inl FileNotFoundError
                                  else Inr (buf (fresh_segment 2 8)))\<rparr>"

text \<open>An environment in which the name denotes 136 zero bytes: no valid header.\<close>

definition foreign_env :: env where
  "foreign_env = \<lparr>clock = (\<lambda>k. real k), pulls = (\<lambda>_. 0),
                   shm_open = (\<lambda>_ _. Inr (replicate 136 0))\<rparr>"

text \<open>An environment in which every name denotes a ring that already holds one message
  (\<open>HEAD = 1\<close>).\<close>

definition used_env :: env where
  "used_env = \<lparr>clock = (\<lambda>k. real k), pulls = (\<lambda>_. 0), shm_open = (\<lambda>_ _. Inr (buf full_ring))\<rparr>"

section \<open>Facts about the buffer and the header\<close>


lemma length_le_encode [simp]: "length (le_encode n v) = n"
  by (induction n arbitrary: v) auto

lemma le_decode_le_encode: "le_decode (le_encode n v) = v mod 256 ^ n"
proof (induction n arbitrary: v)
  case 0
  then show ?case by simp
next
  case (Suc n)
  have "unat (of_nat (v mod 256) :: byte) = v mod 256"
    by (simp add: unat_of_nat)
  then show ?case
    using Suc by (simp add: mod_mult2_eq)
qed

lemma length_buf_store: "off + length bs \<le> length b \<Longrightarrow> length (buf_store b off bs) = length b"
  by (simp add: buf_store_def)

lemma buf_load_store_same: "off \<le> length b \<Longrightarrow> n = length bs \<Longrightarrow> buf_load (buf_store b off bs) off n = bs"
  by (simp add: buf_store_def buf_load_def)

lemma buf_load_store_before:
  "o' + n \<le> off \<Longrightarrow> off \<le> length b \<Longrightarrow> buf_load (buf_store b off bs) o' n = buf_load b o' n"
proof -
  assume a: "o' + n \<le> off" "off \<le> length b"
  have "take n (drop o' (take off b @ bs @ drop (off + length bs) b)) = take n (drop o' (take off b))"
    using a by simp
  also have "\<dots> = take n (take (off - o') (drop o' b))"
    by (simp add: drop_take)
  also have "\<dots> = take n (drop o' b)"
    using a by (simp add: min_def)
  finally show ?thesis
    by (simp add: buf_store_def buf_load_def)
qed

lemma buf_load_store_after:
  "off + length bs \<le> o' \<Longrightarrow> off + length bs \<le> length b \<Longrightarrow> buf_load (buf_store b off bs) o' n = buf_load b o' n"
  by (simp add: buf_store_def buf_load_def)

lemma drop_buf_store:
  "off + length bs \<le> k \<Longrightarrow> off + length bs \<le> length b \<Longrightarrow> drop k (buf_store b off bs) = drop k b"
  by (simp add: buf_store_def)


lemma unat_le_decode_bound: "le_decode bs < 256 ^ length bs"
proof (induction bs)
  case Nil
  then show ?case by simp
next
  case (Cons b bs)
  have "unat b < 256" using unsigned_less [of b, where ?'a = nat] by simp
  with Cons show ?case by simp
qed

lemma hdr_get_hdr_set_same:
  assumes "8 * i \<le> length (buf s)"
  shows "hdr_get (hdr_set s i v) i = v"
proof -
  have "le_decode (le_encode 8 (unat v)) = unat v mod 256 ^ 8"
    by (rule le_decode_le_encode)
  moreover have "unat v < 256 ^ 8"
    using unsigned_less [of v, where ?'a = nat] by simp
  ultimately have "le_decode (le_encode 8 (unat v)) = unat v" by simp
  then show ?thesis
    using assms by (simp add: hdr_get_def hdr_set_def buf_load_store_same)
qed

lemma hdr_get_hdr_set_other:
  assumes "i \<noteq> j" and "8 * i + 8 \<le> length (buf s)"
  shows "hdr_get (hdr_set s i v) j = hdr_get s j"
proof (cases "j < i")
  case True
  then have "8 * j + 8 \<le> 8 * i" by simp
  then show ?thesis
    using assms by (simp add: hdr_get_def hdr_set_def buf_load_store_before)
next
  case False
  with assms have "8 * i + 8 \<le> 8 * j" by simp
  then show ?thesis
    using assms by (simp add: hdr_get_def hdr_set_def buf_load_store_after)
qed

lemma length_hdr_set: "8 * i + 8 \<le> length (buf s) \<Longrightarrow> length (buf (hdr_set s i v)) = length (buf s)"
  by (simp add: hdr_set_def length_buf_store)

lemma drop_hdr_set:
  "8 * i + 8 \<le> k \<Longrightarrow> 8 * i + 8 \<le> length (buf s) \<Longrightarrow> drop k (buf (hdr_set s i v)) = drop k (buf s)"
  by (simp add: hdr_set_def drop_buf_store)

lemma shm_name_hdr_set [simp]: "shm_name (hdr_set s i v) = shm_name s"
  by (simp add: hdr_set_def)


subsection \<open>Slots\<close>

lemma slice_index_nonneg: "0 \<le> i \<Longrightarrow> slice_index len i = min len (nat i)"
  by (auto simp: slice_index_def)

lemma struct_offset_nonneg:
  "0 \<le> off \<Longrightarrow> struct_offset len off =
     (if 2 ^ 63 \<le> off then Inl OverflowError
      else if int len - off < 4 then Inl StructError else Inr (nat off))"
  by (simp add: struct_offset_def)


lemma pack_into_nat:
  "pack_into b (int off) (int n) =
     (if (2::int) ^ 63 \<le> int off then Inl OverflowError
      else if length b < off + 4 then Inl StructError
      else if (2::nat) ^ 32 \<le> n then Inl StructError
      else Inr (buf_store b off (le_encode 4 n)))"
proof -
  have "((2::int) ^ 32 \<le> int n) = ((2::nat) ^ 32 \<le> n)"
    by (metis of_nat_le_iff of_nat_numeral of_nat_power)
  then show ?thesis
    by (auto simp: pack_into_def struct_offset_nonneg)
qed

lemma slice_set_nat:
  "off \<le> length b \<Longrightarrow>
   slice_set b (int off) (int off + int (length p)) p =
     (if length b < off + length p then Inl ValueError else Inr (buf_store b off p))"
proof -
  assume a: "off \<le> length b"
  have "slice_index (length b) (int off) = off"
    using a by (simp add: slice_index_nonneg)
  moreover have "slice_index (length b) (int off + int (length p)) = min (length b) (off + length p)"
    by (simp add: slice_index_nonneg nat_add_distrib)
  ultimately show ?thesis
    using a by (auto simp: slice_set_def Let_def min_def)
qed

lemma write_slot_nat:
  assumes "slot_offset idx sz = int off"
  shows "write_slot s idx sz p =
     (if (2::int) ^ 63 \<le> int off then (Inl OverflowError, s)
      else if length (buf s) < off + 4 then (Inl StructError, s)
      else if (2::nat) ^ 32 \<le> length p then (Inl StructError, s)
      else if length (buf s) < off + 4 + length p
        then (Inl ValueError, s\<lparr>buf := buf_store (buf s) off (le_encode 4 (length p))\<rparr>)
      else (Inr (), s\<lparr>buf := slot_image (buf s) off p\<rparr>))"
proof -
  have e: "int off + 4 + int (length p) = int (off + 4) + int (length p)" by simp
  have e2: "int off + 4 = int (off + 4)" by simp
  have l: "length (buf s) \<ge> off + 4 \<Longrightarrow>
        slice_set (buf_store (buf s) off (le_encode 4 (length p))) (int (off + 4))
          (int (off + 4) + int (length p)) p =
        (if length (buf s) < off + 4 + length p then Inl ValueError
         else Inr (buf_store (buf_store (buf s) off (le_encode 4 (length p))) (off + 4) p))"
    by (subst slice_set_nat) (simp_all add: length_buf_store)
  show ?thesis
    unfolding write_slot_def Let_def assms SLOT_PREFIX_SIZE_def pack_into_nat e e2
    using l by (auto simp: slot_image_def simp del: of_nat_add)
qed


lemma read_slot_nat:
  assumes "slot_offset idx sz = int off"
  shows "read_slot s idx sz =
     (if (2::int) ^ 63 \<le> int off then Inl OverflowError
      else if length (buf s) < off + 4 then Inl StructError
      else Inr (buf_load (buf s) (off + 4) (le_decode (buf_load (buf s) off 4))))"
proof -
  let ?b = "buf s"
  let ?n = "le_decode (buf_load ?b off 4)"
  have lo: "off + 4 \<le> length ?b \<Longrightarrow> slice_index (length ?b) (int off + 4) = off + 4"
    by (simp add: slice_index_nonneg nat_add_distrib)
  have hi: "slice_index (length ?b) (int off + 4 + int ?n) = min (length ?b) (off + 4 + ?n)"
    by (simp add: slice_index_nonneg nat_add_distrib)
  have t: "off + 4 \<le> length ?b \<Longrightarrow>
      buf_load ?b (off + 4) (min (length ?b) (off + 4 + ?n) - (off + 4)) = buf_load ?b (off + 4) ?n"
    by (simp add: buf_load_def min_def)
  show ?thesis
    unfolding read_slot_def Let_def assms SLOT_PREFIX_SIZE_def unpack_from_def slice_get_def
    using lo hi t by (auto simp: struct_offset_nonneg)
qed


lemma length_slot_image:
  "off + 4 + length p \<le> length b \<Longrightarrow> length (slot_image b off p) = length b"
  by (simp add: slot_image_def length_buf_store)

lemma slot_holds_image:
  assumes "off + 4 + length p \<le> length b" and "length p < 2 ^ 32"
  shows "slot_holds (slot_image b off p) off p"
proof -
  let ?b1 = "buf_store b off (le_encode 4 (length p))"
  have l1: "length ?b1 = length b"
    using assms by (simp add: length_buf_store)
  have "buf_load (buf_store ?b1 (off + 4) p) off 4 = buf_load ?b1 off 4"
    using assms l1 by (simp add: buf_load_store_before)
  also have "\<dots> = le_encode 4 (length p)"
    using assms by (simp add: buf_load_store_same)
  finally have a: "buf_load (slot_image b off p) off 4 = le_encode 4 (length p)"
    by (simp add: slot_image_def)
  have b: "buf_load (slot_image b off p) (off + 4) (length p) = p"
    using assms l1 by (simp add: slot_image_def buf_load_store_same)
  show ?thesis
    using assms a b by (simp add: slot_holds_def length_slot_image)
qed

lemma buf_load_slot_image_other:
  assumes "o' + n \<le> off \<or> off + 4 + length p \<le> o'" and "off + 4 + length p \<le> length b"
  shows "buf_load (slot_image b off p) o' n = buf_load b o' n"
proof -
  let ?b1 = "buf_store b off (le_encode 4 (length p))"
  have l1: "length ?b1 = length b"
    using assms by (simp add: length_buf_store)
  from assms(1) show ?thesis
  proof
    assume "o' + n \<le> off"
    then show ?thesis
      using assms(2) l1 by (simp add: slot_image_def buf_load_store_before)
  next
    assume "off + 4 + length p \<le> o'"
    then show ?thesis
      using assms(2) l1 by (simp add: slot_image_def buf_load_store_after)
  qed
qed

lemma slot_holds_image_other:
  assumes "slot_holds b o' m"
    and "o' + 4 + length m \<le> off \<or> off + 4 + length p \<le> o'"
    and "off + 4 + length p \<le> length b"
  shows "slot_holds (slot_image b off p) o' m"
proof -
  have 1: "buf_load (slot_image b off p) o' 4 = buf_load b o' 4"
    using assms(2,3) by (intro buf_load_slot_image_other) auto
  have 2: "buf_load (slot_image b off p) (o' + 4) (length m) = buf_load b (o' + 4) (length m)"
    using assms(2,3) by (intro buf_load_slot_image_other) auto
  show ?thesis
    using assms 1 2 by (simp add: slot_holds_def length_slot_image)
qed

lemma slot_holds_read:
  assumes "slot_holds (buf s) off m" and "slot_offset idx sz = int off" and "int off < 2 ^ 63"
  shows "read_slot s idx sz = Inr m"
proof -
  have "le_decode (buf_load (buf s) off 4) = length m mod 256 ^ 4"
    using assms(1) by (simp add: slot_holds_def le_decode_le_encode)
  also have "\<dots> = length m"
    using assms(1) by (simp add: slot_holds_def)
  finally show ?thesis
    using assms by (simp add: read_slot_nat [OF assms(2)] slot_holds_def)
qed

lemma slot_holds_hdr_set:
  assumes "slot_holds (buf s) off m" and "8 * i + 8 \<le> off"
  shows "slot_holds (buf (hdr_set s i v)) off m"
proof -
  have len: "8 * i + 8 \<le> length (buf s)"
    using assms by (simp add: slot_holds_def)
  then show ?thesis
    using assms
    by (simp add: slot_holds_def hdr_set_def length_buf_store buf_load_store_after)
qed

lemma hdr_get_slot_image:
  assumes "8 * i + 8 \<le> off" and "off + 4 + length p \<le> length (buf s)"
  shows "hdr_get (s\<lparr>buf := slot_image (buf s) off p\<rparr>) i = hdr_get s i"
  using assms by (simp add: hdr_get_def buf_load_slot_image_other)


subsection \<open>The effect of a committed write and of a drop\<close>



lemma np_int64_mod:
  assumes "n \<noteq> 0" and "- (2 ^ 63) \<le> n" and "n < 2 ^ 63"
  shows "np_int64 (x mod n) = Inr (word_of_int (x mod n))"
proof (cases "0 < n")
  case True
  then have "0 \<le> x mod n" and "x mod n < n" by simp_all
  with assms show ?thesis by (simp add: np_int64_def)
next
  case False
  with assms have "n < 0" by simp
  then have "x mod n \<le> 0" and "n < x mod n" by simp_all
  with assms show ?thesis by (simp add: np_int64_def)
qed

lemma write_commit_ok:
  assumes N: "num_slots \<noteq> 0" "- (2 ^ 63) \<le> num_slots" "num_slots < 2 ^ 63"
    and off: "slot_offset (sint (hdr_get s IDX_HEAD)) slot_size = int off"
    and fit: "off + 4 + length p \<le> length (buf s)"
    and p: "length p < 2 ^ 32"
    and len: "length (buf s) < 2 ^ 63"
  shows "write_commit s num_slots slot_size p = (Inr True, after_write s num_slots slot_size p)"
proof -
  have "off < 2 ^ 63"
    using fit len by linarith
  then have "int off < int (2 ^ 63)"
    by (simp only: of_nat_less_iff)
  then have "int off < 2 ^ 63"
    by simp
  then have w: "write_slot s (sint (hdr_get s IDX_HEAD)) slot_size p =
      (Inr (), s\<lparr>buf := slot_image (buf s) off p\<rparr>)"
    using fit p by (simp add: write_slot_nat [OF off])
  show ?thesis
    using N by (simp add: write_commit_def after_write_def Let_def w off hdr_set_int_def np_int64_mod)
qed

lemma np_int64_Inr: "np_int64 n = Inr v \<Longrightarrow> v = word_of_int n"
  by (simp add: np_int64_def split: if_splits)

lemma write_commit_True:
  assumes r: "write_commit s num_slots slot_size p = (Inr True, s')"
    and off: "slot_offset (sint (hdr_get s IDX_HEAD)) slot_size = int off"
  shows "s' = after_write s num_slots slot_size p \<and> off + 4 + length p \<le> length (buf s)
         \<and> length p < 2 ^ 32 \<and> int off < 2 ^ 63 \<and> num_slots \<noteq> 0"
  using r
  by (auto simp: write_commit_def after_write_def Let_def off write_slot_nat [OF off]
      hdr_set_int_def split: if_splits sum.splits prod.splits dest!: np_int64_Inr)


lemmas IDX_defs = IDX_MAGIC_def IDX_VERSION_def IDX_HEAD_def IDX_TAIL_def IDX_MSG_COUNT_def
  IDX_DROP_COUNT_def IDX_NUM_SLOTS_def IDX_SLOT_SIZE_def

lemma after_write_props:
  assumes off: "slot_offset (sint (hdr_get s IDX_HEAD)) slot_size = int off"
    and hdr: "128 \<le> off"
    and fit: "off + 4 + length p \<le> length (buf s)"
  shows "length (buf (after_write s num_slots slot_size p)) = length (buf s)"
    and "shm_name (after_write s num_slots slot_size p) = shm_name s"
    and "hdr_get (after_write s num_slots slot_size p) IDX_HEAD =
           word_of_int ((sint (hdr_get s IDX_HEAD) + 1) mod num_slots)"
    and "hdr_get (after_write s num_slots slot_size p) IDX_MSG_COUNT = hdr_get s IDX_MSG_COUNT + 1"
    and "i < 16 \<Longrightarrow> i \<noteq> IDX_HEAD \<Longrightarrow> i \<noteq> IDX_MSG_COUNT \<Longrightarrow>
           hdr_get (after_write s num_slots slot_size p) i = hdr_get s i"
    and "length p < 2 ^ 32 \<Longrightarrow> slot_holds (buf (after_write s num_slots slot_size p)) off p"
    and "slot_holds (buf s) o' m \<Longrightarrow> 128 \<le> o' \<Longrightarrow>
           o' + 4 + length m \<le> off \<or> off + 4 + length p \<le> o' \<Longrightarrow>
           slot_holds (buf (after_write s num_slots slot_size p)) o' m"
proof -
  let ?s1 = "s\<lparr>buf := slot_image (buf s) off p\<rparr>"
  let ?s2 = "hdr_set ?s1 IDX_HEAD (word_of_int ((sint (hdr_get s IDX_HEAD) + 1) mod num_slots))"
  let ?s3 = "hdr_set ?s2 IDX_MSG_COUNT (hdr_get ?s2 IDX_MSG_COUNT + 1)"
  have aw: "after_write s num_slots slot_size p = ?s3"
    by (simp add: after_write_def Let_def off)
  have l1: "length (buf ?s1) = length (buf s)"
    using fit by (simp add: length_slot_image)
  have big: "128 \<le> length (buf s)"
    using hdr fit by simp
  have l2: "length (buf ?s2) = length (buf s)"
    using l1 big by (simp add: length_hdr_set IDX_defs)
  have l3: "length (buf ?s3) = length (buf s)"
    using l2 big by (simp add: length_hdr_set IDX_defs)
  show "length (buf (after_write s num_slots slot_size p)) = length (buf s)"
    using l3 by (simp only: aw)
  show "shm_name (after_write s num_slots slot_size p) = shm_name s"
    by (simp add: aw)
  have g1: "\<And>i. i < 16 \<Longrightarrow> hdr_get ?s1 i = hdr_get s i"
    using hdr fit by (intro hdr_get_slot_image) auto
  have g2h: "hdr_get ?s2 IDX_HEAD = word_of_int ((sint (hdr_get s IDX_HEAD) + 1) mod num_slots)"
    using l1 big by (intro hdr_get_hdr_set_same) (simp add: IDX_defs)
  have g2: "\<And>i. i < 16 \<Longrightarrow> i \<noteq> IDX_HEAD \<Longrightarrow> hdr_get ?s2 i = hdr_get s i"
  proof -
    fix i :: nat assume i: "i < 16" "i \<noteq> IDX_HEAD"
    have "hdr_get ?s2 i = hdr_get ?s1 i"
      using i l1 big by (intro hdr_get_hdr_set_other) (auto simp: IDX_defs)
    then show "hdr_get ?s2 i = hdr_get s i"
      using g1 i by simp
  qed
  have "hdr_get ?s3 IDX_HEAD = hdr_get ?s2 IDX_HEAD"
    using l2 big by (intro hdr_get_hdr_set_other) (auto simp: IDX_defs)
  then show "hdr_get (after_write s num_slots slot_size p) IDX_HEAD =
           word_of_int ((sint (hdr_get s IDX_HEAD) + 1) mod num_slots)"
    using g2h by (simp only: aw)
  have "hdr_get ?s3 IDX_MSG_COUNT = hdr_get ?s2 IDX_MSG_COUNT + 1"
    using l2 big by (intro hdr_get_hdr_set_same) (simp add: IDX_defs)
  moreover have "hdr_get ?s2 IDX_MSG_COUNT = hdr_get s IDX_MSG_COUNT"
    by (rule g2) (simp_all add: IDX_defs)
  ultimately show "hdr_get (after_write s num_slots slot_size p) IDX_MSG_COUNT = hdr_get s IDX_MSG_COUNT + 1"
    by (simp only: aw)
  show "hdr_get (after_write s num_slots slot_size p) i = hdr_get s i"
    if i: "i < 16" "i \<noteq> IDX_HEAD" "i \<noteq> IDX_MSG_COUNT"
  proof -
    have "hdr_get ?s3 i = hdr_get ?s2 i"
      using i l2 big by (intro hdr_get_hdr_set_other) (auto simp: IDX_defs)
    then show ?thesis
      using g2 i by (simp only: aw)
  qed
  have keep: "slot_holds (buf ?s3) o'' m'" if h: "slot_holds (buf ?s1) o'' m'" and o: "128 \<le> o''" for o'' m'
  proof -
    have 2: "slot_holds (buf ?s2) o'' m'"
      using o by (intro slot_holds_hdr_set [OF h]) (simp add: IDX_defs)
    show ?thesis
      using o by (intro slot_holds_hdr_set [OF 2]) (simp add: IDX_defs)
  qed
  show "slot_holds (buf (after_write s num_slots slot_size p)) off p" if "length p < 2 ^ 32"
  proof -
    have "slot_holds (buf ?s1) off p"
      using fit that by (simp add: slot_holds_image)
    then show ?thesis
      using hdr keep by (simp only: aw)
  qed
  show "slot_holds (buf (after_write s num_slots slot_size p)) o' m"
    if "slot_holds (buf s) o' m" "128 \<le> o'" "o' + 4 + length m \<le> off \<or> off + 4 + length p \<le> o'"
  proof -
    have "slot_holds (buf ?s1) o' m"
      using that fit by (simp add: slot_holds_image_other)
    then show ?thesis
      using that keep by (simp only: aw)
  qed
qed

lemma after_drop_props:
  assumes "128 \<le> length (buf s)"
  shows "length (buf (after_drop s)) = length (buf s)"
    and "shm_name (after_drop s) = shm_name s"
    and "hdr_get (after_drop s) IDX_DROP_COUNT = hdr_get s IDX_DROP_COUNT + 1"
    and "i < 16 \<Longrightarrow> i \<noteq> IDX_DROP_COUNT \<Longrightarrow> hdr_get (after_drop s) i = hdr_get s i"
    and "drop 128 (buf (after_drop s)) = drop 128 (buf s)"
proof -
  show "length (buf (after_drop s)) = length (buf s)"
    using assms by (simp add: after_drop_def length_hdr_set IDX_defs)
  show "shm_name (after_drop s) = shm_name s"
    by (simp add: after_drop_def)
  show "hdr_get (after_drop s) IDX_DROP_COUNT = hdr_get s IDX_DROP_COUNT + 1"
    unfolding after_drop_def using assms by (intro hdr_get_hdr_set_same) (simp add: IDX_defs)
  show "hdr_get (after_drop s) i = hdr_get s i" if "i < 16" "i \<noteq> IDX_DROP_COUNT"
    unfolding after_drop_def using assms that by (intro hdr_get_hdr_set_other) (auto simp: IDX_defs)
  show "drop 128 (buf (after_drop s)) = drop 128 (buf s)"
    unfolding after_drop_def using assms by (intro drop_hdr_set) (auto simp: IDX_defs)
qed


subsection \<open>One round of the producer's loop\<close>

lemma wait_for_slot_zero:
  "wait_for_slot E d b 0 j s = Some (Inl ZeroDivisionError, s)"
  by (subst wait_for_slot.simps) simp

lemma wait_for_slot_free:
  assumes "num_slots \<noteq> 0"
    and "(sint (hdr_get s IDX_HEAD) + 1) mod num_slots \<noteq> sint (hdr_get s IDX_TAIL)"
  shows "wait_for_slot E d b num_slots j s = Some (Inr SlotFree, s)"
  using assms by (subst wait_for_slot.simps) simp

lemma wait_for_slot_drop:
  assumes "num_slots \<noteq> 0"
    and "(sint (hdr_get s IDX_HEAD) + 1) mod num_slots = sint (hdr_get s IDX_TAIL)"
  shows "wait_for_slot E d False num_slots j s = Some (Inr Dropped, after_drop s)"
  using assms by (subst wait_for_slot.simps) (simp add: after_drop_def)

lemma wait_for_slot_deadline:
  assumes "num_slots \<noteq> 0"
    and "(sint (hdr_get s IDX_HEAD) + 1) mod num_slots = sint (hdr_get s IDX_TAIL)"
    and "d \<le> clock E (Suc j)"
  shows "wait_for_slot E (Some d) True num_slots j s = Some (Inl SHMBufferFullError, s)"
  using assms by (subst wait_for_slot.simps) simp

lemma wait_for_slot_sleep:
  assumes "num_slots \<noteq> 0"
    and "(sint (hdr_get s IDX_HEAD) + 1) mod num_slots = sint (hdr_get s IDX_TAIL)"
    and "case d of None \<Rightarrow> True | Some t \<Rightarrow> clock E (Suc j) < t"
  shows "wait_for_slot E d True num_slots j s =
           wait_for_slot E d True num_slots (Suc j) (consumers_run (pulls E j) s)"
  using assms by (subst wait_for_slot.simps) (auto split: option.splits)

lemma wait_for_slot_nonblocking:
  "wait_for_slot E d False num_slots j s =
     (if num_slots = 0 then Some (Inl ZeroDivisionError, s)
      else if (sint (hdr_get s IDX_HEAD) + 1) mod num_slots \<noteq> sint (hdr_get s IDX_TAIL)
        then Some (Inr SlotFree, s)
      else Some (Inr Dropped, after_drop s))"
  by (subst wait_for_slot.simps) (simp add: after_drop_def)

lemma write_commit_not_False: "write_commit s n sz p \<noteq> (Inr False, s')"
  by (auto simp: write_commit_def Let_def split: prod.splits sum.splits)

lemma write_message_dropped:
  assumes "write_message E s p False timeout False = Some (Inr False, s')"
  shows "s' = after_drop s \<and> 128 \<le> length (buf s)
         \<and> sint (hdr_get s IDX_NUM_SLOTS) \<noteq> 0
         \<and> (sint (hdr_get s IDX_HEAD) + 1) mod sint (hdr_get s IDX_NUM_SLOTS) = sint (hdr_get s IDX_TAIL)"
  using assms
  by (auto simp: write_message_def get_header_def make_header_array_def Let_def
      wait_for_slot_nonblocking write_commit_not_False
      split: if_splits option.splits)

lemma write_message_full_nonblocking:
  assumes "128 \<le> length (buf s)"
    and "int (length p) \<le> sint (hdr_get s IDX_SLOT_SIZE) - 4"
    and "sint (hdr_get s IDX_NUM_SLOTS) \<noteq> 0"
    and "(sint (hdr_get s IDX_HEAD) + 1) mod sint (hdr_get s IDX_NUM_SLOTS) = sint (hdr_get s IDX_TAIL)"
  shows "write_message E s p False timeout False = Some (Inr False, after_drop s)"
  using assms
  by (auto simp: write_message_def get_header_def make_header_array_def Let_def
      wait_for_slot_nonblocking SLOT_PREFIX_SIZE_def split: option.splits)

lemma write_message_overwrite:
  assumes "128 \<le> length (buf s)"
    and "int (length p) \<le> sint (hdr_get s IDX_SLOT_SIZE) - 4"
  shows "write_message E s p block timeout True =
     Some (write_commit s (sint (hdr_get s IDX_NUM_SLOTS)) (sint (hdr_get s IDX_SLOT_SIZE)) p)"
  using assms
  by (simp add: write_message_def get_header_def make_header_array_def Let_def SLOT_PREFIX_SIZE_def)

lemma write_message_free:
  assumes "128 \<le> length (buf s)"
    and "int (length p) \<le> sint (hdr_get s IDX_SLOT_SIZE) - 4"
    and "sint (hdr_get s IDX_NUM_SLOTS) \<noteq> 0"
    and "(sint (hdr_get s IDX_HEAD) + 1) mod sint (hdr_get s IDX_NUM_SLOTS) \<noteq> sint (hdr_get s IDX_TAIL)"
  shows "write_message E s p block timeout False =
     Some (write_commit s (sint (hdr_get s IDX_NUM_SLOTS)) (sint (hdr_get s IDX_SLOT_SIZE)) p)"
  using assms
  by (simp add: write_message_def get_header_def make_header_array_def Let_def SLOT_PREFIX_SIZE_def
      wait_for_slot_free)


subsection \<open>A freshly initialised header\<close>

lemma hdr_get_hdr_set:
  "8 * i + 8 \<le> length (buf s) \<Longrightarrow>
     hdr_get (hdr_set s i v) j = (if i = j then v else hdr_get s j)"
  by (simp add: hdr_get_hdr_set_same hdr_get_hdr_set_other)

lemma np_int64_ok: "- (2 ^ 63) \<le> n \<Longrightarrow> n < 2 ^ 63 \<Longrightarrow> np_int64 n = Inr (word_of_int n)"
  by (simp add: np_int64_def)

lemma sint_word_of_int_64:
  "- (2 ^ 63) \<le> n \<Longrightarrow> n < 2 ^ 63 \<Longrightarrow> sint (word_of_int n :: int64) = n"
  by (simp add: sint_sbintrunc' signed_take_bit_int_eq_self)

lemma init_header_ok:
  assumes len: "128 \<le> length (buf s)"
    and N: "- (2 ^ 63) \<le> num_slots" "num_slots < 2 ^ 63"
    and S: "- (2 ^ 63) \<le> slot_size" "slot_size < 2 ^ 63"
  shows "fst (init_header s num_slots slot_size) = Inr ()"
    and "length (buf (snd (init_header s num_slots slot_size))) = length (buf s)"
    and "shm_name (snd (init_header s num_slots slot_size)) = shm_name s"
    and "hdr_get (snd (init_header s num_slots slot_size)) IDX_MAGIC = word_of_int MAGIC"
    and "hdr_get (snd (init_header s num_slots slot_size)) IDX_VERSION = word_of_int VERSION"
    and "hdr_get (snd (init_header s num_slots slot_size)) IDX_HEAD = 0"
    and "hdr_get (snd (init_header s num_slots slot_size)) IDX_TAIL = 0"
    and "hdr_get (snd (init_header s num_slots slot_size)) IDX_MSG_COUNT = 0"
    and "hdr_get (snd (init_header s num_slots slot_size)) IDX_DROP_COUNT = 0"
    and "hdr_get (snd (init_header s num_slots slot_size)) IDX_NUM_SLOTS = word_of_int num_slots"
    and "hdr_get (snd (init_header s num_slots slot_size)) IDX_SLOT_SIZE = word_of_int slot_size"
  using assms
  by (simp_all add: init_header_def make_header_array_def Let_def hdr_set_int_def np_int64_ok
      hdr_get_hdr_set length_hdr_set IDX_defs)

lemma fresh_segment_props:
  assumes "n < 2 ^ 63" and "sz < 2 ^ 63"
  shows "length (buf (fresh_segment n sz)) = 128 + n * sz"
    and "sint (hdr_get (fresh_segment n sz) IDX_MAGIC) = MAGIC"
    and "sint (hdr_get (fresh_segment n sz) IDX_VERSION) = VERSION"
    and "hdr_get (fresh_segment n sz) IDX_HEAD = 0"
    and "hdr_get (fresh_segment n sz) IDX_TAIL = 0"
    and "hdr_get (fresh_segment n sz) IDX_MSG_COUNT = 0"
    and "hdr_get (fresh_segment n sz) IDX_DROP_COUNT = 0"
    and "sint (hdr_get (fresh_segment n sz) IDX_NUM_SLOTS) = int n"
    and "sint (hdr_get (fresh_segment n sz) IDX_SLOT_SIZE) = int sz"
proof -
  let ?s = "\<lparr>shm_name = ''shmcomm_test_buf'', buf = replicate (128 + n * sz) 0\<rparr>"
  have len: "128 \<le> length (buf ?s)" by simp
  have N: "- (2 ^ 63) \<le> int n" "int n < 2 ^ 63"
    using assms(1) by simp_all 
  have S: "- (2 ^ 63) \<le> int sz" "int sz < 2 ^ 63"
    using assms(2) by simp_all
  note ih = init_header_ok [OF len N S]
  show "length (buf (fresh_segment n sz)) = 128 + n * sz"
    using ih(2) by (simp add: fresh_segment_def)
  show "sint (hdr_get (fresh_segment n sz) IDX_MAGIC) = MAGIC"
    unfolding fresh_segment_def ih(4) by (simp add: MAGIC_def)
  show "sint (hdr_get (fresh_segment n sz) IDX_VERSION) = VERSION"
    unfolding fresh_segment_def ih(5) by (simp add: VERSION_def)
  show "hdr_get (fresh_segment n sz) IDX_HEAD = 0"
    unfolding fresh_segment_def by (rule ih)
  show "hdr_get (fresh_segment n sz) IDX_TAIL = 0"
    unfolding fresh_segment_def by (rule ih)
  show "hdr_get (fresh_segment n sz) IDX_MSG_COUNT = 0"
    unfolding fresh_segment_def by (rule ih)
  show "hdr_get (fresh_segment n sz) IDX_DROP_COUNT = 0"
    unfolding fresh_segment_def by (rule ih)
  show "sint (hdr_get (fresh_segment n sz) IDX_NUM_SLOTS) = int n"
    unfolding fresh_segment_def ih(10) using N by (rule sint_word_of_int_64)
  show "sint (hdr_get (fresh_segment n sz) IDX_SLOT_SIZE) = int sz"
    unfolding fresh_segment_def ih(11) using S by (rule sint_word_of_int_64)
qed

section \<open>A rejected write\<close>

text \<open>
  C9.  Whenever a non-overwrite, non-blocking \<open>write_message\<close> returns \<open>False\<close> (which it
  does only on a full ring, \<open>(HEAD + 1) % NUM_SLOTS == TAIL\<close>), the only header cell that
  changes is \<open>DROP_COUNT\<close>, incremented by exactly 1 (as an int64 cell); \<open>HEAD\<close>, \<open>TAIL\<close>,
  \<open>MSG_COUNT\<close>, \<open>NUM_SLOTS\<close>, \<open>SLOT_SIZE\<close>, every other header cell and every byte of the
  slot area are left unchanged.
\<close>

theorem rejected_write_frame:
  assumes "write_message E s p False timeout False = Some (Inr False, s')"
  shows "hdr_get s' IDX_DROP_COUNT = hdr_get s IDX_DROP_COUNT + 1
       \<and> hdr_get s' IDX_HEAD = hdr_get s IDX_HEAD
       \<and> hdr_get s' IDX_TAIL = hdr_get s IDX_TAIL
       \<and> hdr_get s' IDX_MSG_COUNT = hdr_get s IDX_MSG_COUNT
       \<and> hdr_get s' IDX_NUM_SLOTS = hdr_get s IDX_NUM_SLOTS
       \<and> hdr_get s' IDX_SLOT_SIZE = hdr_get s IDX_SLOT_SIZE
       \<and> (\<forall>i<16. i \<noteq> IDX_DROP_COUNT \<longrightarrow> hdr_get s' i = hdr_get s i)
       \<and> drop 128 (buf s') = drop 128 (buf s)
       \<and> length (buf s') = length (buf s)
       \<and> shm_name s' = shm_name s
       \<and> (sint (hdr_get s IDX_HEAD) + 1) mod sint (hdr_get s IDX_NUM_SLOTS) = sint (hdr_get s IDX_TAIL)"
proof -
  from write_message_dropped [OF assms]
  have s': "s' = after_drop s" and len: "128 \<le> length (buf s)"
    and full: "(sint (hdr_get s IDX_HEAD) + 1) mod sint (hdr_get s IDX_NUM_SLOTS) = sint (hdr_get s IDX_TAIL)"
    by simp_all
  note ad = after_drop_props [OF len]
  have all: "\<forall>i<16. i \<noteq> IDX_DROP_COUNT \<longrightarrow> hdr_get s' i = hdr_get s i"
    unfolding s' using ad(4) by blast
  have "hdr_get s' IDX_HEAD = hdr_get s IDX_HEAD"
    and "hdr_get s' IDX_TAIL = hdr_get s IDX_TAIL"
    and "hdr_get s' IDX_MSG_COUNT = hdr_get s IDX_MSG_COUNT"
    and "hdr_get s' IDX_NUM_SLOTS = hdr_get s IDX_NUM_SLOTS"
    and "hdr_get s' IDX_SLOT_SIZE = hdr_get s IDX_SLOT_SIZE"
    using all by (simp_all add: IDX_defs)
  moreover have "hdr_get s' IDX_DROP_COUNT = hdr_get s IDX_DROP_COUNT + 1"
    and "drop 128 (buf s') = drop 128 (buf s)"
    and "length (buf s') = length (buf s)"
    and "shm_name s' = shm_name s"
    unfolding s' by (rule ad)+
  ultimately show ?thesis
    using all full by simp
qed

theorem rejected_write_frame_witness:
  "write_message quiet_env (fresh_segment 1 8) [7] False None False
     = Some (Inr False, after_drop (fresh_segment 1 8))
   \<and> hdr_get (after_drop (fresh_segment 1 8)) IDX_DROP_COUNT = 1
   \<and> hdr_get (after_drop (fresh_segment 1 8)) IDX_HEAD = 0
   \<and> hdr_get (after_drop (fresh_segment 1 8)) IDX_TAIL = 0
   \<and> hdr_get (after_drop (fresh_segment 1 8)) IDX_MSG_COUNT = 0
   \<and> sint (hdr_get (after_drop (fresh_segment 1 8)) IDX_NUM_SLOTS) = 1
   \<and> sint (hdr_get (after_drop (fresh_segment 1 8)) IDX_SLOT_SIZE) = 8
   \<and> drop 128 (buf (after_drop (fresh_segment 1 8))) = drop 128 (buf (fresh_segment 1 8))"
proof -
  have w: "write_message quiet_env (fresh_segment 1 8) [7] False None False
             = Some (Inr False, after_drop (fresh_segment 1 8))"
    by (rule write_message_full_nonblocking) (simp_all add: fresh_segment_props)
  show ?thesis
    using w rejected_write_frame [OF w] by (simp add: fresh_segment_props)
qed

section \<open>Consumers leave everything but \<open>TAIL\<close> alone\<close>

lemma tail_only_refl: "tail_only s s"
  by (simp add: tail_only_def)

lemma tail_only_trans: "tail_only s s1 \<Longrightarrow> tail_only s1 s2 \<Longrightarrow> tail_only s s2"
  by (simp add: tail_only_def)

lemma tail_only_hdr_set:
  assumes "128 \<le> length (buf s)"
  shows "tail_only s (hdr_set s IDX_TAIL v)"
proof -
  have "hdr_get (hdr_set s IDX_TAIL v) i = hdr_get s i" if "i \<noteq> IDX_TAIL" for i
    using assms that by (intro hdr_get_hdr_set_other) (auto simp: IDX_defs)
  moreover have "length (buf (hdr_set s IDX_TAIL v)) = length (buf s)"
    using assms by (simp add: length_hdr_set IDX_defs)
  moreover have "drop 128 (buf (hdr_set s IDX_TAIL v)) = drop 128 (buf s)"
    using assms by (intro drop_hdr_set) (auto simp: IDX_defs)
  ultimately show ?thesis
    by (simp add: tail_only_def)
qed

lemma tail_only_shared_read: "tail_only s (snd (read_message_shared_tail s))"
  by (auto simp: read_message_shared_tail_def get_header_def make_header_array_def Let_def
      tail_only_refl tail_only_hdr_set split: sum.splits)

lemma tail_only_consumers_run: "tail_only s (consumers_run n s)"
proof (induction n arbitrary: s)
  case 0
  then show ?case by (simp add: tail_only_refl)
next
  case (Suc n)
  show ?case
    using tail_only_shared_read [of s] Suc [of "snd (read_message_shared_tail s)"]
    by (auto intro: tail_only_trans)
qed


lemma wait_for_slot_frame:
  assumes "wait_for_slot E d b num_slots j s = Some y"
  shows "(fst y = Inr Dropped \<and> \<not> b \<and> snd y = after_drop s)
       \<or> (fst y \<noteq> Inr Dropped \<and> tail_only s (snd y))"
proof (rule wait_for_slot.raw_induct
    [where P = "\<lambda>E d b num_slots j s y.
        (fst y = Inr Dropped \<and> \<not> b \<and> snd y = after_drop s)
        \<or> (fst y \<noteq> Inr Dropped \<and> tail_only s (snd y))", OF _ assms], goal_cases)
  case (1 wait E d b num_slots j s y)
  let ?full = "(sint (hdr_get s IDX_HEAD) + 1) mod num_slots = sint (hdr_get s IDX_TAIL)"
  let ?late = "case d of None \<Rightarrow> False | Some t \<Rightarrow> t \<le> clock E (Suc j)"
  show ?case
  proof (cases "num_slots = 0 \<or> \<not> ?full \<or> \<not> b \<or> ?late")
    case True
    with 1(2) show ?thesis
      by (auto simp: Let_def after_drop_def tail_only_refl split: if_splits)
  next
    case False
    with 1(2) have r: "wait E d b num_slots (Suc j) (consumers_run (pulls E j) s) = Some y"
      by (simp add: Let_def)
    from 1(1) [OF r] False have "fst y \<noteq> Inr Dropped"
      and "tail_only (consumers_run (pulls E j) s) (snd y)"
      by auto
    then show ?thesis
      using tail_only_consumers_run [of s "pulls E j"] by (auto intro: tail_only_trans)
  qed
qed

lemma write_message_True:
  assumes "write_message E s p block timeout overwrite = Some (Inr True, s')"
  shows "128 \<le> length (buf s) \<and> int (length p) \<le> sint (hdr_get s IDX_SLOT_SIZE) - 4
       \<and> (\<exists>s1. tail_only s s1
             \<and> write_commit s1 (sint (hdr_get s IDX_NUM_SLOTS)) (sint (hdr_get s IDX_SLOT_SIZE)) p
                 = (Inr True, s'))"
proof -
  let ?N = "sint (hdr_get s IDX_NUM_SLOTS)" and ?S = "sint (hdr_get s IDX_SLOT_SIZE)"
  from assms have len: "128 \<le> length (buf s)"
    by (auto simp: write_message_def get_header_def make_header_array_def split: if_splits)
  from assms len have fit: "int (length p) \<le> ?S - 4"
    by (auto simp: write_message_def get_header_def make_header_array_def Let_def
        SLOT_PREFIX_SIZE_def split: if_splits)
  have "\<exists>s1. tail_only s s1 \<and> write_commit s1 ?N ?S p = (Inr True, s')"
  proof (cases overwrite)
    case True
    with assms len fit have "write_commit s ?N ?S p = (Inr True, s')"
      by (simp add: write_message_overwrite)
    then show ?thesis
      using tail_only_refl by blast
  next
    case False
    let ?d = "case timeout of None \<Rightarrow> None | Some t \<Rightarrow> if block then Some (clock E 0 + t) else None"
    from assms len fit False obtain s1 where
      w: "wait_for_slot E ?d block ?N 0 s = Some (Inr SlotFree, s1)"
      and c: "write_commit s1 ?N ?S p = (Inr True, s')"
      by (auto simp: write_message_def get_header_def make_header_array_def Let_def
          SLOT_PREFIX_SIZE_def split: option.splits sum.splits wait_outcome.splits prod.splits)
    from wait_for_slot_frame [OF w] have "tail_only s s1"
      by simp
    with c show ?thesis
      by blast
  qed
  with len fit show ?thesis
    by simp
qed


lemma slot_offset_nat:
  "0 \<le> idx \<Longrightarrow> 0 \<le> sz \<Longrightarrow> slot_offset idx sz = int (128 + nat idx * nat sz)"
  by (simp add: slot_offset_def HEADER_SIZE_def)

lemma mod_succ_neq:
  fixes h n :: int
  assumes "0 \<le> h" and "2 \<le> n"
  shows "(h + 1) mod n \<noteq> h"
proof
  assume e: "(h + 1) mod n = h"
  then have "h < n"
    using assms pos_mod_bound [of n "h + 1"] by linarith
  show False
  proof (cases "h + 1 < n")
    case True
    then have "(h + 1) mod n = h + 1"
      using assms by simp
    with e show False by simp
  next
    case False
    with \<open>h < n\<close> have "h + 1 = n" by simp
    then have "(h + 1) mod n = 0" by simp
    with e \<open>h + 1 = n\<close> assms show False by simp
  qed
qed

section \<open>Round trip of the raw bytes\<close>

text \<open>
  C1 (amended).  For every segment with \<open>NUM_SLOTS \<ge> 2\<close> and \<open>HEAD \<ge> 0\<close> (every segment
  the library creates with at least two slots, at any time) and every payload \<open>p\<close>: when
  \<open>write_message(shm, p)\<close> returns \<open>True\<close>, in any mode, then \<open>read_message_spsc\<close> at
  the value \<open>HEAD\<close> had before the write returns exactly \<open>p\<close>, with
  \<open>new_tail = (old HEAD + 1) % NUM_SLOTS\<close>.  (A write that returns \<open>True\<close> had
  \<open>len(p) \<le> SLOT_SIZE - 4\<close>, by \<open>write_message_True\<close>.)
\<close>

theorem write_then_read_roundtrip:
  assumes w: "write_message E s p block timeout overwrite = Some (Inr True, s')"
    and h: "0 \<le> sint (hdr_get s IDX_HEAD)"
    and n: "2 \<le> sint (hdr_get s IDX_NUM_SLOTS)"
  shows "read_message_spsc s' (sint (hdr_get s IDX_HEAD)) =
           Inr (Some (p, (sint (hdr_get s IDX_HEAD) + 1) mod sint (hdr_get s IDX_NUM_SLOTS)))"
proof -
  let ?N = "sint (hdr_get s IDX_NUM_SLOTS)" and ?S = "sint (hdr_get s IDX_SLOT_SIZE)"
  let ?h = "sint (hdr_get s IDX_HEAD)"
  from write_message_True [OF w] obtain s1 where
    len: "128 \<le> length (buf s)" and fit: "int (length p) \<le> ?S - 4"
    and t: "tail_only s s1" and c: "write_commit s1 ?N ?S p = (Inr True, s')"
    by blast
  have S: "0 \<le> ?S" using fit by linarith
  have h1: "hdr_get s1 IDX_HEAD = hdr_get s IDX_HEAD"
    and N1: "hdr_get s1 IDX_NUM_SLOTS = hdr_get s IDX_NUM_SLOTS"
    and S1: "hdr_get s1 IDX_SLOT_SIZE = hdr_get s IDX_SLOT_SIZE"
    and len1: "length (buf s1) = length (buf s)"
    using t by (simp_all add: tail_only_def IDX_defs)
  define off where "off = 128 + nat ?h * nat ?S"
  have off: "slot_offset (sint (hdr_get s1 IDX_HEAD)) ?S = int off"
    unfolding h1 off_def using h S by (rule slot_offset_nat)
  from write_commit_True [OF c off]
  have s': "s' = after_write s1 ?N ?S p" and inb: "off + 4 + length p \<le> length (buf s1)"
    and p32: "length p < 2 ^ 32" and o63: "int off < 2 ^ 63"
    by simp_all
  have o128: "128 \<le> off" by (simp add: off_def)
  note aw = after_write_props [OF off o128 inb, where num_slots = ?N]
  have Nr: "- (2 ^ 63) \<le> ?N" "?N < 2 ^ 63"
    using sint_ge [of "hdr_get s IDX_NUM_SLOTS"] sint_lt [of "hdr_get s IDX_NUM_SLOTS"] by simp_all
  have nx: "0 \<le> (?h + 1) mod ?N" "(?h + 1) mod ?N < ?N"
    using n by simp_all
  have head': "sint (hdr_get s' IDX_HEAD) = (?h + 1) mod ?N"
    unfolding s' aw(3) h1 using nx Nr by (intro sint_word_of_int_64) linarith+
  have N': "hdr_get s' IDX_NUM_SLOTS = hdr_get s IDX_NUM_SLOTS"
    unfolding s' using aw(5) [of IDX_NUM_SLOTS] N1 by (simp add: IDX_defs)
  have S': "hdr_get s' IDX_SLOT_SIZE = hdr_get s IDX_SLOT_SIZE"
    unfolding s' using aw(5) [of IDX_SLOT_SIZE] S1 by (simp add: IDX_defs)
  have len': "128 \<le> length (buf s')"
    unfolding s' aw(1) len1 by (rule len)
  have "slot_holds (buf s') off p"
    unfolding s' using p32 by (rule aw(6))
  moreover have "slot_offset ?h ?S = int off"
    unfolding off_def using h S by (rule slot_offset_nat)
  ultimately have rd: "read_slot s' ?h ?S = Inr p"
    using o63 by (rule slot_holds_read)
  have ne: "?h \<noteq> (?h + 1) mod ?N"
    using mod_succ_neq [OF h n] by simp
  show ?thesis
    using len' ne n rd
    by (simp add: read_message_spsc_def get_header_def make_header_array_def Let_def head' N' S')
qed

lemma fresh_write_commit:
  assumes "0 < n" and "n < 2 ^ 31" and "4 \<le> sz" and "sz < 2 ^ 31" and "length p + 4 \<le> sz"
  shows "write_commit (fresh_segment n sz) (int n) (int sz) p
           = (Inr True, after_write (fresh_segment n sz) (int n) (int sz) p)"
proof -
  have b: "n < 2 ^ 63" "sz < 2 ^ 63"
    using assms by (simp_all add: less_trans [OF _ power_strict_increasing [of 31 63 "2::nat"]])
  note fp = fresh_segment_props [OF b]
  have "n * sz < 2 ^ 31 * 2 ^ 31"
    using assms by (intro mult_strict_mono) simp_all
  then have tot: "128 + n * sz < 2 ^ 63" by simp
  have "sz \<le> n * sz" using assms by simp
  show ?thesis
  proof (rule write_commit_ok [where off = 128])
    show "int n \<noteq> 0" using assms by simp
    show "- (2 ^ 63) \<le> int n" by simp
    show "int n < 2 ^ 63" using b by simp
    show "slot_offset (sint (hdr_get (fresh_segment n sz) IDX_HEAD)) (int sz) = int 128"
      by (simp add: fp slot_offset_def HEADER_SIZE_def)
    show "128 + 4 + length p \<le> length (buf (fresh_segment n sz))"
      unfolding fp(1) using assms(5) \<open>sz \<le> n * sz\<close> by linarith
    show "length p < 2 ^ 32"
      using assms by simp
    show "length (buf (fresh_segment n sz)) < 2 ^ 63"
      using tot by (simp add: fp)
  qed
qed


text \<open>Writes into a freshly created segment.\<close>

lemma fresh_write_overwrite:
  assumes "0 < n" and "n < 2 ^ 31" and "4 \<le> sz" and "sz < 2 ^ 31" and "length p + 4 \<le> sz"
  shows "write_message E (fresh_segment n sz) p block timeout True
           = Some (Inr True, after_write (fresh_segment n sz) (int n) (int sz) p)"
proof -
  have b: "n < 2 ^ 63" "sz < 2 ^ 63"
    using assms by (simp_all add: less_trans [OF _ power_strict_increasing [of 31 63 "2::nat"]])
  note fp = fresh_segment_props [OF b]
  have "write_message E (fresh_segment n sz) p block timeout True =
      Some (write_commit (fresh_segment n sz) (sint (hdr_get (fresh_segment n sz) IDX_NUM_SLOTS))
              (sint (hdr_get (fresh_segment n sz) IDX_SLOT_SIZE)) p)"
    using assms(5) by (intro write_message_overwrite) (simp_all add: fp)
  then show ?thesis
    by (simp add: fp fresh_write_commit [OF assms])
qed

lemma fresh_write_first:
  assumes "1 < n" and "n < 2 ^ 31" and "4 \<le> sz" and "sz < 2 ^ 31" and "length p + 4 \<le> sz"
  shows "write_message E (fresh_segment n sz) p block timeout False
           = Some (Inr True, after_write (fresh_segment n sz) (int n) (int sz) p)"
proof -
  have b: "n < 2 ^ 63" "sz < 2 ^ 63"
    using assms by (simp_all add: less_trans [OF _ power_strict_increasing [of 31 63 "2::nat"]])
  note fp = fresh_segment_props [OF b]
  have n0: "0 < n" using assms by simp
  have "write_message E (fresh_segment n sz) p block timeout False =
      Some (write_commit (fresh_segment n sz) (sint (hdr_get (fresh_segment n sz) IDX_NUM_SLOTS))
              (sint (hdr_get (fresh_segment n sz) IDX_SLOT_SIZE)) p)"
    using assms(1,5) by (intro write_message_free) (simp_all add: fp)
  then show ?thesis
    by (simp add: fp fresh_write_commit [OF n0 assms(2-)])
qed

theorem write_then_read_roundtrip_witness:
  "write_message quiet_env (fresh_segment 2 8) [1, 2, 3, 4] False None False
     = Some (Inr True, after_write (fresh_segment 2 8) 2 8 [1, 2, 3, 4])
   \<and> 0 \<le> sint (hdr_get (fresh_segment 2 8) IDX_HEAD)
   \<and> 2 \<le> sint (hdr_get (fresh_segment 2 8) IDX_NUM_SLOTS)
   \<and> read_message_spsc (after_write (fresh_segment 2 8) 2 8 [1, 2, 3, 4]) 0
       = Inr (Some ([1, 2, 3, 4], 1))"
proof -
  have w: "write_message quiet_env (fresh_segment 2 8) [1, 2, 3, 4] False None False
     = Some (Inr True, after_write (fresh_segment 2 8) (int 2) (int 8) [1, 2, 3, 4])"
    by (rule fresh_write_first) simp_all
  have h: "0 \<le> sint (hdr_get (fresh_segment 2 8) IDX_HEAD)"
    and n: "2 \<le> sint (hdr_get (fresh_segment 2 8) IDX_NUM_SLOTS)"
    by (simp_all add: fresh_segment_props)
  show ?thesis
    using w h n write_then_read_roundtrip [OF w h n] by (simp add: fresh_segment_props)
qed

text \<open>
  With a single slot the claim as the specification states it fails: the header is valid,
  the payload fits, the overwriting write returns \<open>True\<close>, but \<open>HEAD\<close> wraps to the value it
  had, so the read at the old \<open>HEAD\<close> finds the ring empty.
\<close>

theorem roundtrip_single_slot_counterexample:
  "validate_header (fresh_segment 1 8) = Inr ()
   \<and> int (length [7 :: byte]) \<le> sint (hdr_get (fresh_segment 1 8) IDX_SLOT_SIZE) - 4
   \<and> write_message quiet_env (fresh_segment 1 8) [7] False None True
       = Some (Inr True, after_write (fresh_segment 1 8) 1 8 [7])
   \<and> read_message_spsc (after_write (fresh_segment 1 8) 1 8 [7])
         (sint (hdr_get (fresh_segment 1 8) IDX_HEAD)) = Inr None"
proof -
  note fp = fresh_segment_props [of 1 8, simplified]
  have v: "validate_header (fresh_segment 1 8) = Inr ()"
    by (simp add: validate_header_def make_header_array_def fp)
  have w: "write_message quiet_env (fresh_segment 1 8) [7] False None True
       = Some (Inr True, after_write (fresh_segment 1 8) (int 1) (int 8) [7])"
    by (rule fresh_write_overwrite) simp_all
  have off: "slot_offset (sint (hdr_get (fresh_segment 1 8) IDX_HEAD)) 8 = int 128"
    by (simp add: fp slot_offset_def HEADER_SIZE_def)
  have inb: "128 + 4 + length [7 :: byte] \<le> length (buf (fresh_segment 1 8))"
    by (simp add: fp)
  note aw = after_write_props [OF off order_refl inb, where num_slots = 1]
  have "hdr_get (after_write (fresh_segment 1 8) 1 8 [7]) IDX_HEAD = 0"
    unfolding aw(3) by simp
  moreover have "128 \<le> length (buf (after_write (fresh_segment 1 8) 1 8 [7]))"
    unfolding aw(1) by (simp add: fp)
  ultimately have r: "read_message_spsc (after_write (fresh_segment 1 8) 1 8 [7]) 0 = Inr None"
    by (simp add: read_message_spsc_def get_header_def make_header_array_def)
  show ?thesis
    using v w r by (simp add: fp)
qed

section \<open>Writes into a ring of a known geometry\<close>

lemma ring_write_commit:
  assumes r: "ring_ok s n sz" and h: "sint (hdr_get s IDX_HEAD) = int h" and hn: "h < n"
    and p: "length p + 4 \<le> sz" "length p < 2 ^ 32"
  shows "write_commit s (int n) (int sz) p = (Inr True, after_write s (int n) (int sz) p)"
    and "ring_ok (after_write s (int n) (int sz) p) n sz"
    and "sint (hdr_get (after_write s (int n) (int sz) p) IDX_HEAD) = int (Suc h mod n)"
    and "hdr_get (after_write s (int n) (int sz) p) IDX_TAIL = hdr_get s IDX_TAIL"
    and "hdr_get (after_write s (int n) (int sz) p) IDX_DROP_COUNT = hdr_get s IDX_DROP_COUNT"
    and "hdr_get (after_write s (int n) (int sz) p) IDX_MSG_COUNT = hdr_get s IDX_MSG_COUNT + 1"
    and "slot_holds (buf (after_write s (int n) (int sz) p)) (128 + h * sz) p"
    and "\<And>j m. slot_holds (buf s) (128 + j * sz) m \<Longrightarrow> length m + 4 \<le> sz \<Longrightarrow> j \<noteq> h \<Longrightarrow>
           slot_holds (buf (after_write s (int n) (int sz) p)) (128 + j * sz) m"
proof -
  let ?s' = "after_write s (int n) (int sz) p"
  have n0: "0 < n" and len: "128 + n * sz \<le> length (buf s)" and l63: "length (buf s) < 2 ^ 63"
    and N: "sint (hdr_get s IDX_NUM_SLOTS) = int n" and S: "sint (hdr_get s IDX_SLOT_SIZE) = int sz"
    using r by (simp_all add: ring_ok_def)
  have off: "slot_offset (sint (hdr_get s IDX_HEAD)) (int sz) = int (128 + h * sz)"
    by (simp add: h slot_offset_def HEADER_SIZE_def)
  have "Suc h * sz \<le> n * sz"
    using hn by (intro mult_le_mono1) simp
  then have inb: "128 + h * sz + 4 + length p \<le> length (buf s)"
    using len p by simp
  have n63: "n < 2 ^ 63"
  proof -
    have "1 \<le> sz" using r by (simp add: ring_ok_def)
    then have "n * 1 \<le> n * sz" by (rule mult_le_mono2)
    then have "n \<le> n * sz" by simp
    then show ?thesis using len l63 by linarith
  qed
  then have nr: "int n < 2 ^ 63"
    by simp
  show "write_commit s (int n) (int sz) p = (Inr True, ?s')"
  proof (rule write_commit_ok [OF _ _ _ off inb p(2) l63])
    show "int n \<noteq> 0" using n0 by simp
    show "- (2 ^ 63) \<le> int n" by simp
    show "int n < 2 ^ 63" by (rule nr)
  qed
  have o128: "128 \<le> 128 + h * sz" by simp
  note aw = after_write_props [OF off o128 inb, where num_slots = "int n"]
  show "ring_ok ?s' n sz"
    using r aw(5) [of IDX_NUM_SLOTS] aw(5) [of IDX_SLOT_SIZE]
    by (simp add: ring_ok_def aw(1) IDX_defs)
  have m: "(int h + 1) mod int n = int (Suc h mod n)"
    by (simp add: zmod_int add.commute)
  have "int (Suc h mod n) < 2 ^ 63"
    using nr n0 by (smt (verit) mod_less_divisor of_nat_less_iff)
  then show "sint (hdr_get ?s' IDX_HEAD) = int (Suc h mod n)"
    unfolding aw(3) h m by (intro sint_word_of_int_64) simp_all
  show "hdr_get ?s' IDX_TAIL = hdr_get s IDX_TAIL"
    by (rule aw(5)) (simp_all add: IDX_defs)
  show "hdr_get ?s' IDX_DROP_COUNT = hdr_get s IDX_DROP_COUNT"
    by (rule aw(5)) (simp_all add: IDX_defs)
  show "hdr_get ?s' IDX_MSG_COUNT = hdr_get s IDX_MSG_COUNT + 1"
    by (rule aw(4))
  show "slot_holds (buf ?s') (128 + h * sz) p"
    using p(2) by (rule aw(6))
  show "slot_holds (buf ?s') (128 + j * sz) m"
    if sh: "slot_holds (buf s) (128 + j * sz) m" and ml: "length m + 4 \<le> sz" and jh: "j \<noteq> h" for j m
  proof (rule aw(7) [OF sh])
    show "128 \<le> 128 + j * sz" by simp
    show "128 + j * sz + 4 + length m \<le> 128 + h * sz \<or> 128 + h * sz + 4 + length p \<le> 128 + j * sz"
    proof (cases "j < h")
      case True
      then have "Suc j * sz \<le> h * sz" by (intro mult_le_mono1) simp
      then show ?thesis using ml by simp
    next
      case False
      with jh have "Suc h * sz \<le> j * sz" by (intro mult_le_mono1) simp
      then show ?thesis using p(1) by simp
    qed
  qed
qed


lemma ring_write_free:
  assumes r: "ring_ok s n sz" and h: "sint (hdr_get s IDX_HEAD) = int h" and hn: "h < n"
    and p: "length p + 4 \<le> sz" "length p < 2 ^ 32"
    and free: "overwrite \<or> int (Suc h mod n) \<noteq> sint (hdr_get s IDX_TAIL)"
  shows "write_message E s p block timeout overwrite = Some (Inr True, after_write s (int n) (int sz) p)"
proof -
  have N: "sint (hdr_get s IDX_NUM_SLOTS) = int n" and S: "sint (hdr_get s IDX_SLOT_SIZE) = int sz"
    and len: "128 \<le> length (buf s)" and n0: "0 < n"
    using r by (simp_all add: ring_ok_def)
  have fit: "int (length p) \<le> sint (hdr_get s IDX_SLOT_SIZE) - 4"
    unfolding S using p(1) by linarith
  have m: "(int h + 1) mod int n = int (Suc h mod n)"
    by (simp add: zmod_int add.commute)
  have "write_message E s p block timeout overwrite =
      Some (write_commit s (sint (hdr_get s IDX_NUM_SLOTS)) (sint (hdr_get s IDX_SLOT_SIZE)) p)"
  proof (cases overwrite)
    case True
    then show ?thesis
      using len fit by (simp add: write_message_overwrite)
  next
    case False
    with free have "(sint (hdr_get s IDX_HEAD) + 1) mod sint (hdr_get s IDX_NUM_SLOTS)
        \<noteq> sint (hdr_get s IDX_TAIL)"
      by (simp add: h N m)
    with False show ?thesis
      using len fit n0 by (simp add: write_message_free N)
  qed
  then show ?thesis
    by (simp add: N S ring_write_commit(1) [OF r h hn p])
qed

lemma init_header_ring:
  assumes "0 < n" and "4 \<le> sz" and "128 + n * sz \<le> length (buf b)" and "length (buf b) < 2 ^ 63"
  shows "fst (init_header b (int n) (int sz)) = Inr ()"
    and "ring_ok (snd (init_header b (int n) (int sz))) n sz"
    and "hdr_get (snd (init_header b (int n) (int sz))) IDX_HEAD = 0"
    and "hdr_get (snd (init_header b (int n) (int sz))) IDX_TAIL = 0"
    and "hdr_get (snd (init_header b (int n) (int sz))) IDX_MSG_COUNT = 0"
    and "hdr_get (snd (init_header b (int n) (int sz))) IDX_DROP_COUNT = 0"
proof -
  have "n * 1 \<le> n * sz" using assms(2) by (intro mult_le_mono2) simp
  then have "n \<le> n * sz" by simp
  then have "n < 2 ^ 63" using assms(3,4) by linarith
  then have N: "- (2 ^ 63) \<le> int n" "int n < 2 ^ 63"
    by simp_all
  have "1 * sz \<le> n * sz" using assms(1) by (intro mult_le_mono1) simp
  then have "sz \<le> n * sz" by simp
  then have "sz < 2 ^ 63" using assms(3,4) by linarith
  then have S: "- (2 ^ 63) \<le> int sz" "int sz < 2 ^ 63"
    by simp_all
  have len: "128 \<le> length (buf b)" using assms(3) by simp
  note ih = init_header_ok [OF len N S]
  show "fst (init_header b (int n) (int sz)) = Inr ()" by (rule ih)
  have "sint (hdr_get (snd (init_header b (int n) (int sz))) IDX_NUM_SLOTS) = int n"
    unfolding ih(10) using N by (rule sint_word_of_int_64)
  moreover have "sint (hdr_get (snd (init_header b (int n) (int sz))) IDX_SLOT_SIZE) = int sz"
    unfolding ih(11) using S by (rule sint_word_of_int_64)
  ultimately show "ring_ok (snd (init_header b (int n) (int sz))) n sz"
    using assms by (simp add: ring_ok_def ih(2))
  show "hdr_get (snd (init_header b (int n) (int sz))) IDX_HEAD = 0" by (rule ih)
  show "hdr_get (snd (init_header b (int n) (int sz))) IDX_TAIL = 0" by (rule ih)
  show "hdr_get (snd (init_header b (int n) (int sz))) IDX_MSG_COUNT = 0" by (rule ih)
  show "hdr_get (snd (init_header b (int n) (int sz))) IDX_DROP_COUNT = 0" by (rule ih)
qed

lemma after_writes_Nil [simp]: "after_writes s n sz [] = s"
  by (simp add: after_writes_def)

lemma after_writes_Cons [simp]:
  "after_writes s n sz (p # ps) = after_writes (after_write s n sz p) n sz ps"
  by (simp add: after_writes_def)

lemma fill_ring:
  assumes "ring_ok s n sz" and "sint (hdr_get s IDX_HEAD) = int h" and "hdr_get s IDX_TAIL = 0"
    and "h + length ps < n"
    and "\<forall>p\<in>set ps. length p + 4 \<le> sz \<and> length p < 2 ^ 32"
  shows "write_each E block timeout False s ps
           = Some (replicate (length ps) True, after_writes s (int n) (int sz) ps)
       \<and> ring_ok (after_writes s (int n) (int sz) ps) n sz
       \<and> sint (hdr_get (after_writes s (int n) (int sz) ps) IDX_HEAD) = int (h + length ps)
       \<and> hdr_get (after_writes s (int n) (int sz) ps) IDX_TAIL = 0
       \<and> hdr_get (after_writes s (int n) (int sz) ps) IDX_DROP_COUNT = hdr_get s IDX_DROP_COUNT"
  using assms
proof (induction ps arbitrary: s h)
  case Nil
  then show ?case by simp
next
  case (Cons p ps)
  let ?s1 = "after_write s (int n) (int sz) p"
  let ?s2 = "after_writes ?s1 (int n) (int sz) ps"
  have hn: "h < n" and sh: "Suc h < n" using Cons.prems(4) by simp_all
  have p: "length p + 4 \<le> sz" "length p < 2 ^ 32" using Cons.prems(5) by simp_all
  have md: "Suc h mod n = Suc h" using sh by simp
  have free: "False \<or> int (Suc h mod n) \<noteq> sint (hdr_get s IDX_TAIL)"
    by (simp add: md Cons.prems(3))
  have w: "write_message E s p block timeout False = Some (Inr True, ?s1)"
    by (rule ring_write_free [OF Cons.prems(1,2) hn p free])
  note rc = ring_write_commit [OF Cons.prems(1,2) hn p]
  have "write_each E block timeout False ?s1 ps = Some (replicate (length ps) True, ?s2)
           \<and> ring_ok ?s2 n sz \<and> sint (hdr_get ?s2 IDX_HEAD) = int (Suc h + length ps)
           \<and> hdr_get ?s2 IDX_TAIL = 0 \<and> hdr_get ?s2 IDX_DROP_COUNT = hdr_get ?s1 IDX_DROP_COUNT"
  proof (rule Cons.IH)
    show "ring_ok ?s1 n sz" by (rule rc)
    show "sint (hdr_get ?s1 IDX_HEAD) = int (Suc h)" using rc(3) md by simp
    show "hdr_get ?s1 IDX_TAIL = 0" using rc(4) Cons.prems(3) by simp
    show "Suc h + length ps < n" using Cons.prems(4) by simp
    show "\<forall>p\<in>set ps. length p + 4 \<le> sz \<and> length p < 2 ^ 32" using Cons.prems(5) by simp
  qed
  then show ?case
    using w rc(5) by simp
qed

section \<open>Capacity of the ring\<close>

text \<open>
  C2.  Take a buffer that holds \<open>n \<ge> 1\<close> slots of \<open>sz \<ge> 4\<close> bytes and let \<open>_init_header\<close>
  initialise it (\<open>HEAD = TAIL = 0\<close>, \<open>NUM_SLOTS = n\<close>).  Then the first \<open>n - 1\<close>
  non-overwrite writes of payloads that fit a slot (\<open>len(p) \<le> sz - 4\<close>, the length an
  unsigned 32-bit number) all return \<open>True\<close>, whatever \<open>block\<close> and \<open>timeout\<close> are, and leave
  \<open>HEAD = n - 1\<close>; the \<open>n\<close>-th write with \<open>block=False\<close> returns \<open>False\<close>, increments
  \<open>DROP_COUNT\<close> by exactly 1 and leaves \<open>HEAD\<close> unchanged.
\<close>

theorem sentinel_capacity:
  assumes geo: "0 < n" "4 \<le> sz" "128 + n * sz \<le> length (buf b)" "length (buf b) < 2 ^ 63"
    and ps: "length ps = n - 1" "\<forall>p\<in>set ps. length p + 4 \<le> sz \<and> length p < 2 ^ 32"
    and q: "length q + 4 \<le> sz"
    and s0: "s0 = snd (init_header b (int n) (int sz))"
    and s1: "s1 = after_writes s0 (int n) (int sz) ps"
  shows "fst (init_header b (int n) (int sz)) = Inr ()
       \<and> write_each E block timeout False s0 ps = Some (replicate (n - 1) True, s1)
       \<and> sint (hdr_get s1 IDX_HEAD) = int n - 1
       \<and> hdr_get s1 IDX_DROP_COUNT = 0
       \<and> write_message E s1 q False timeout' False = Some (Inr False, after_drop s1)
       \<and> hdr_get (after_drop s1) IDX_DROP_COUNT = hdr_get s1 IDX_DROP_COUNT + 1
       \<and> hdr_get (after_drop s1) IDX_HEAD = hdr_get s1 IDX_HEAD"
proof -
  note ir = init_header_ring [OF geo]
  have h0: "sint (hdr_get s0 IDX_HEAD) = int 0" by (simp add: s0 ir)
  have lt: "0 + length ps < n" using ps(1) geo(1) by simp
  from fill_ring [OF ir(2) [folded s0] h0 ir(4) [folded s0] lt ps(2), of E block timeout]
  have we: "write_each E block timeout False s0 ps = Some (replicate (length ps) True, s1)"
    and r1: "ring_ok s1 n sz" and h1: "sint (hdr_get s1 IDX_HEAD) = int (0 + length ps)"
    and t1: "hdr_get s1 IDX_TAIL = 0" and d1: "hdr_get s1 IDX_DROP_COUNT = hdr_get s0 IDX_DROP_COUNT"
    by (simp_all add: s1)
  have len1: "128 \<le> length (buf s1)" and N1: "sint (hdr_get s1 IDX_NUM_SLOTS) = int n"
    and S1: "sint (hdr_get s1 IDX_SLOT_SIZE) = int sz"
    using r1 by (simp_all add: ring_ok_def)
  have hd: "sint (hdr_get s1 IDX_HEAD) = int n - 1"
    using h1 ps(1) geo(1) by simp
  have full: "(sint (hdr_get s1 IDX_HEAD) + 1) mod sint (hdr_get s1 IDX_NUM_SLOTS)
      = sint (hdr_get s1 IDX_TAIL)"
    by (simp add: hd N1 t1)
  have w: "write_message E s1 q False timeout' False = Some (Inr False, after_drop s1)"
  proof (rule write_message_full_nonblocking [OF len1 _ _ full])
    show "int (length q) \<le> sint (hdr_get s1 IDX_SLOT_SIZE) - 4"
      unfolding S1 using q by linarith
    show "sint (hdr_get s1 IDX_NUM_SLOTS) \<noteq> 0"
      using geo(1) by (simp add: N1)
  qed
  note ad = after_drop_props [OF len1]
  have "hdr_get (after_drop s1) IDX_HEAD = hdr_get s1 IDX_HEAD"
    by (rule ad(4)) (simp_all add: IDX_defs)
  moreover have "hdr_get s1 IDX_DROP_COUNT = 0"
    using d1 ir(6) by (simp add: s0)
  ultimately show ?thesis
    using ir(1) we hd w ad(3) ps(1) by simp
qed

theorem sentinel_capacity_witness:
  "write_each quiet_env False None False
       (snd (init_header \<lparr>shm_name = ''shmcomm_push_jobs'', buf = replicate 152 0\<rparr> 3 8))
       [[1], [2, 3]]
     = Some ([True, True],
         after_writes (snd (init_header \<lparr>shm_name = ''shmcomm_push_jobs'', buf = replicate 152 0\<rparr> 3 8))
           3 8 [[1], [2, 3]])
   \<and> sint (hdr_get
         (after_writes (snd (init_header \<lparr>shm_name = ''shmcomm_push_jobs'', buf = replicate 152 0\<rparr> 3 8))
            3 8 [[1], [2, 3]]) IDX_HEAD) = 2
   \<and> write_message quiet_env
         (after_writes (snd (init_header \<lparr>shm_name = ''shmcomm_push_jobs'', buf = replicate 152 0\<rparr> 3 8))
            3 8 [[1], [2, 3]]) [9] False None False
       = Some (Inr False, after_drop
           (after_writes (snd (init_header \<lparr>shm_name = ''shmcomm_push_jobs'', buf = replicate 152 0\<rparr> 3 8))
              3 8 [[1], [2, 3]]))
   \<and> hdr_get (after_drop
         (after_writes (snd (init_header \<lparr>shm_name = ''shmcomm_push_jobs'', buf = replicate 152 0\<rparr> 3 8))
            3 8 [[1], [2, 3]])) IDX_DROP_COUNT = 1"
proof -
  have ps: "\<forall>p\<in>set [[1], [2, 3 :: byte]]. length p + 4 \<le> 8 \<and> length p < 2 ^ 32"
    by simp
  have r: "replicate 2 True = [True, True]"
    by (simp add: numeral_2_eq_2)
  show ?thesis
    using sentinel_capacity [where n = 3 and sz = 8
        and b = "\<lparr>shm_name = ''shmcomm_push_jobs'', buf = replicate 152 0\<rparr>"
        and ps = "[[1], [2, 3]]" and q = "[9]" and E = quiet_env and block = False
        and timeout = None and timeout' = None, OF _ _ _ _ _ ps _ refl refl]
    by (simp add: r del: write_each.simps after_writes_Cons)
qed

section \<open>A burst of overwriting writes\<close>

lemma mod_neq_within:
  fixes i k n :: nat
  assumes "i < k" and "k < i + n"
  shows "i mod n \<noteq> k mod n"
proof
  assume "i mod n = k mod n"
  then have "n dvd k - i"
    using assms(1) by (metis mod_eq_dvd_iff_nat less_imp_le_nat)
  moreover have "0 < k - i" and "k - i < n"
    using assms by simp_all
  ultimately show False
    using nat_dvd_not_less by blast
qed

lemma ring_holds_write:
  assumes rh: "ring_holds s n sz ms" and p: "length p + 4 \<le> sz" "length p < 2 ^ 32"
  shows "write_message E s p block timeout True = Some (Inr True, after_write s (int n) (int sz) p)"
    and "ring_holds (after_write s (int n) (int sz) p) n sz (ms @ [p])"
proof -
  let ?s' = "after_write s (int n) (int sz) p"
  let ?h = "length ms mod n"
  have r: "ring_ok s n sz" and h: "sint (hdr_get s IDX_HEAD) = int ?h"
    using rh by (simp_all add: ring_holds_def)
  have n0: "0 < n" using r by (simp add: ring_ok_def)
  then have hn: "?h < n" by simp
  show "write_message E s p block timeout True = Some (Inr True, ?s')"
    by (rule ring_write_free [OF r h hn p]) simp
  note rc = ring_write_commit [OF r h hn p]
  have head: "sint (hdr_get ?s' IDX_HEAD) = int (length (ms @ [p]) mod n)"
    using rc(3) by (simp add: mod_Suc_eq)
  have slots: "slot_holds (buf ?s') (128 + (i mod n) * sz) ((ms @ [p]) ! i)
        \<and> length ((ms @ [p]) ! i) + 4 \<le> sz"
    if i: "i < length (ms @ [p])" and w: "length (ms @ [p]) \<le> i + n" for i
  proof (cases "i = length ms")
    case True
    then show ?thesis
      using rc(7) p(1) by simp
  next
    case False
    with i have il: "i < length ms" by simp
    from w have "length ms \<le> i + n" and "length ms < i + n" by simp_all
    with rh il have old: "slot_holds (buf s) (128 + (i mod n) * sz) (ms ! i)"
      and ol: "length (ms ! i) + 4 \<le> sz"
      by (simp_all add: ring_holds_def)
    have "i mod n \<noteq> ?h"
      using il \<open>length ms < i + n\<close> by (rule mod_neq_within)
    with old ol have "slot_holds (buf ?s') (128 + (i mod n) * sz) (ms ! i)"
      by (rule rc(8))
    then show ?thesis
      using il ol by (simp add: nth_append)
  qed
  show "ring_holds ?s' n sz (ms @ [p])"
    unfolding ring_holds_def using rc(2) head slots by blast
qed

lemma overwrite_each:
  assumes "ring_holds s n sz ms"
    and "\<forall>p\<in>set ps. length p + 4 \<le> sz \<and> length p < 2 ^ 32"
  shows "write_each E block timeout True s ps
           = Some (replicate (length ps) True, after_writes s (int n) (int sz) ps)
         \<and> ring_holds (after_writes s (int n) (int sz) ps) n sz (ms @ ps)"
  using assms
proof (induction ps arbitrary: s ms)
  case Nil
  then show ?case by simp
next
  case (Cons p ps)
  let ?s1 = "after_write s (int n) (int sz) p"
  have p: "length p + 4 \<le> sz" "length p < 2 ^ 32" using Cons.prems(2) by simp_all
  note st = ring_holds_write(1) [OF Cons.prems(1) p, of E block timeout]
    ring_holds_write(2) [OF Cons.prems(1) p]
  have "\<forall>p\<in>set ps. length p + 4 \<le> sz \<and> length p < 2 ^ 32" using Cons.prems(2) by simp
  from Cons.IH [OF st(2) this] show ?case
    using st(1) by simp
qed

lemma read_message_spsc_holds:
  assumes rh: "ring_holds s n sz ms" and t: "t < length ms mod n"
  shows "read_message_spsc s (int t) =
           Inr (Some (ms ! (length ms - length ms mod n + t), int (Suc t)))"
proof -
  let ?K = "length ms" and ?i = "length ms - length ms mod n + t"
  have r: "ring_ok s n sz" and h: "sint (hdr_get s IDX_HEAD) = int (?K mod n)"
    using rh by (simp_all add: ring_holds_def)
  have n0: "0 < n" and N: "sint (hdr_get s IDX_NUM_SLOTS) = int n"
    and S: "sint (hdr_get s IDX_SLOT_SIZE) = int sz"
    and len: "128 + n * sz \<le> length (buf s)" and l63: "length (buf s) < 2 ^ 63"
    using r by (simp_all add: ring_ok_def)
  have kn: "?K mod n < n" using n0 by simp
  have tn: "t < n" using t kn by simp
  have le: "?K mod n \<le> ?K" by (rule mod_less_eq_dividend)
  have iK: "?i < ?K" using t le by linarith
  have Ki: "?K \<le> ?i + n" using kn le by linarith
  have "n dvd ?K - ?K mod n" by simp
  then have "(?K - ?K mod n + t) mod n = t mod n"
    by (metis dvd_eq_mod_eq_0 mod_add_left_eq add_0)
  then have im: "?i mod n = t" using tn by simp
  from rh iK Ki have sh: "slot_holds (buf s) (128 + (?i mod n) * sz) (ms ! ?i)"
    by (simp add: ring_holds_def)
  have so: "slot_offset (int t) (int sz) = int (128 + t * sz)"
    by (simp add: slot_offset_def HEADER_SIZE_def)
  have "Suc t * sz \<le> n * sz" using tn by (intro mult_le_mono1) simp
  then have "128 + t * sz < 2 ^ 63" using len l63 by simp
  then have "int (128 + t * sz) < int (2 ^ 63)" by (simp only: of_nat_less_iff)
  then have o63: "int (128 + t * sz) < 2 ^ 63" by simp
  have rd: "read_slot s (int t) (int sz) = Inr (ms ! ?i)"
    using sh so o63 unfolding im by (rule slot_holds_read)
  have m: "(int t + 1) mod int n = int (Suc t)"
  proof -
    have "Suc t < n" using t kn by simp
    then have "int t + 1 < int n" by simp
    then show ?thesis by simp
  qed
  have ne: "int t \<noteq> int (?K mod n)" using t by simp
  show ?thesis
    using len ne n0 m
    by (simp add: read_message_spsc_def get_header_def make_header_array_def Let_def h N S rd)
qed

lemma read_message_spsc_empty:
  assumes "ring_holds s n sz ms"
  shows "read_message_spsc s (int (length ms mod n)) = Inr None"
  using assms
  by (simp add: read_message_spsc_def get_header_def make_header_array_def Let_def
      ring_holds_def ring_ok_def)

lemma read_each_holds:
  assumes rh: "ring_holds s n sz ms" and "t \<le> length ms mod n" and "length ms mod n - t < k"
  shows "read_each k s (int t) =
           Inr (map (\<lambda>j. ms ! (length ms - length ms mod n + j)) [t..<length ms mod n],
                int (length ms mod n))"
  using assms(2,3)
proof (induction k arbitrary: t)
  case 0
  then show ?case by simp
next
  case (Suc k)
  show ?case
  proof (cases "t = length ms mod n")
    case True
    then show ?thesis
      using read_message_spsc_empty [OF rh] by simp
  next
    case False
    with Suc.prems have t: "t < length ms mod n" by simp
    have "read_each k s (int (Suc t)) =
        Inr (map (\<lambda>j. ms ! (length ms - length ms mod n + j)) [Suc t..<length ms mod n],
             int (length ms mod n))"
      using t Suc.prems by (intro Suc.IH) simp_all
    then show ?thesis
      using read_message_spsc_holds [OF rh t] t by (simp add: upt_conv_Cons del: upt_Suc)
  qed
qed

lemma map_nth_drop: "a \<le> length xs \<Longrightarrow> map (\<lambda>j. xs ! (a + j)) [0..<length xs - a] = drop a xs"
proof -
  assume a: "a \<le> length xs"
  have "map (nth (drop a xs)) [0..<length (drop a xs)] = drop a xs"
    by (rule map_nth)
  moreover have "map (nth (drop a xs)) [0..<length (drop a xs)]
      = map (\<lambda>j. xs ! (a + j)) [0..<length xs - a]"
    using a by (intro map_cong) simp_all
  ultimately show ?thesis by simp
qed

lemma read_each_all:
  assumes rh: "ring_holds s n sz ms" and k: "length ms mod n < k"
  shows "read_each k s 0 = Inr (drop (length ms - length ms mod n) ms, int (length ms mod n))"
proof -
  let ?a = "length ms - length ms mod n"
  have le: "length ms mod n \<le> length ms" by (rule mod_less_eq_dividend)
  then have e: "length ms - ?a = length ms mod n" by simp
  have "?a \<le> length ms" by simp
  from map_nth_drop [OF this] have "map (\<lambda>j. ms ! (?a + j)) [0..<length ms mod n] = drop ?a ms"
    unfolding e .
  moreover have "read_each k s (int 0) =
      Inr (map (\<lambda>j. ms ! (?a + j)) [0..<length ms mod n], int (length ms mod n))"
    using k by (intro read_each_holds [OF rh]) simp_all
  ultimately show ?thesis by simp
qed


lemma init_header_ring_holds:
  assumes "0 < n" and "4 \<le> sz" and "128 + n * sz \<le> length (buf b)" and "length (buf b) < 2 ^ 63"
  shows "ring_holds (snd (init_header b (int n) (int sz))) n sz []"
  using init_header_ring [OF assms] by (simp add: ring_holds_def)

lemma overwrite_burst_observed:
  assumes geo: "0 < n" "4 \<le> sz" "128 + n * sz \<le> length (buf b)" "length (buf b) < 2 ^ 63"
    and ms: "\<forall>p\<in>set ms. length p + 4 \<le> sz \<and> length p < 2 ^ 32"
    and s0: "s0 = snd (init_header b (int n) (int sz))"
    and s': "s' = after_writes s0 (int n) (int sz) ms"
  shows "write_each E block timeout True s0 ms = Some (replicate (length ms) True, s')"
    and "ring_holds s' n sz ms"
    and "length ms mod n < k \<Longrightarrow>
           read_each k s' 0 = Inr (drop (length ms - length ms mod n) ms, int (length ms mod n))"
proof -
  have i: "ring_holds s0 n sz []"
    unfolding s0 by (rule init_header_ring_holds [OF geo])
  from overwrite_each [OF i ms, of E block timeout]
  show w: "write_each E block timeout True s0 ms = Some (replicate (length ms) True, s')"
    and rh: "ring_holds s' n sz ms"
    by (simp_all add: s')
  show "read_each k s' 0 = Inr (drop (length ms - length ms mod n) ms, int (length ms mod n))"
    if "length ms mod n < k"
    using rh that by (rule read_each_all)
qed

text \<open>
  C3 (amended).  Take a freshly initialised ring of \<open>n\<close> slots and write \<open>K\<close> messages that
  fit a slot with \<open>overwrite=True\<close>.  Every write returns \<open>True\<close> and \<open>HEAD\<close> ends at
  \<open>K mod n\<close>.  A consumer whose private cursor was 0 (the value of \<open>HEAD\<close> before the burst)
  then receives, from successive \<open>read_message_spsc\<close> calls, exactly the last \<open>K mod n\<close>
  messages, in order, and finds the ring empty after them.  For \<open>K = 2 * n - 1\<close> these are
  the final \<open>n - 1\<close> messages; for \<open>K = 2 * n\<close> there are none, because \<open>HEAD\<close> has wrapped
  to the cursor.
\<close>

theorem overwrite_burst:
  assumes "0 < n" and "4 \<le> sz" and "128 + n * sz \<le> length (buf b)" and "length (buf b) < 2 ^ 63"
    and "\<forall>p\<in>set ms. length p + 4 \<le> sz \<and> length p < 2 ^ 32"
    and "s0 = snd (init_header b (int n) (int sz))"
    and "s' = after_writes s0 (int n) (int sz) ms"
  shows "write_each E block timeout True s0 ms = Some (replicate (length ms) True, s')
       \<and> sint (hdr_get s' IDX_HEAD) = int (length ms mod n)
       \<and> (\<forall>k. length ms mod n < k \<longrightarrow>
             read_each k s' 0 = Inr (drop (length ms - length ms mod n) ms, int (length ms mod n)))
       \<and> (length ms = 2 * n - 1 \<longrightarrow>
             read_each n s' 0 = Inr (drop n ms, int n - 1) \<and> length (drop n ms) = n - 1)
       \<and> (length ms = 2 * n \<longrightarrow> read_each n s' 0 = Inr ([], 0))"
proof -
  note ob = overwrite_burst_observed [OF assms]
  have h: "sint (hdr_get s' IDX_HEAD) = int (length ms mod n)"
    using ob(2) by (simp add: ring_holds_def)
  have a: "read_each n s' 0 = Inr (drop n ms, int n - 1) \<and> length (drop n ms) = n - 1"
    if l: "length ms = 2 * n - 1"
  proof -
    have "2 * n - 1 = n + (n - 1)" using assms(1) by simp
    then have m: "length ms mod n = n - 1"
      using assms(1) l by (metis add.commute mod_add_self2 mod_less diff_less zero_less_one)
    then have "length ms mod n < n" using assms(1) by simp
    from ob(3) [OF this] show ?thesis
      using l m assms(1) by simp
  qed
  have c: "read_each n s' 0 = Inr ([], 0)" if l: "length ms = 2 * n"
  proof -
    have m: "length ms mod n = 0" using l by simp
    then have "length ms mod n < n" using assms(1) by simp
    from ob(3) [OF this] show ?thesis
      using l m by simp
  qed
  show ?thesis
    using ob(1) h ob(3) a c by blast
qed

theorem overwrite_burst_witness:
  "write_each quiet_env False None True
       (snd (init_header \<lparr>shm_name = ''shmcomm_pub_c1'', buf = replicate 152 0\<rparr> 3 8))
       [[1], [2], [3], [4], [5]]
     = Some ([True, True, True, True, True],
         after_writes (snd (init_header \<lparr>shm_name = ''shmcomm_pub_c1'', buf = replicate 152 0\<rparr> 3 8))
           3 8 [[1], [2], [3], [4], [5]])
   \<and> read_each 3
         (after_writes (snd (init_header \<lparr>shm_name = ''shmcomm_pub_c1'', buf = replicate 152 0\<rparr> 3 8))
            3 8 [[1], [2], [3], [4], [5]]) 0
       = Inr ([[4], [5]], 2)"
proof -
  have ms: "\<forall>p\<in>set [[1], [2], [3], [4], [5 :: byte]]. length p + 4 \<le> 8 \<and> length p < 2 ^ 32"
    by simp
  have r: "replicate 5 True = [True, True, True, True, True]"
    by (simp add: numeral_eq_Suc)
  have d: "drop 3 [[1], [2], [3], [4], [5 :: byte]] = [[4], [5]]"
    by (simp add: numeral_eq_Suc)
  show ?thesis
    using overwrite_burst [where n = 3 and sz = 8
        and b = "\<lparr>shm_name = ''shmcomm_pub_c1'', buf = replicate 152 0\<rparr>"
        and ms = "[[1], [2], [3], [4], [5]]" and E = quiet_env and block = False and timeout = None,
        OF _ _ _ _ ms refl refl]
    by (simp add: r d del: write_each.simps read_each.simps after_writes_Cons)
qed

text \<open>
  The claim as the specification states it, at \<open>n = 2\<close>: after \<open>2 * n = 4\<close> overwriting writes
  the consumer at cursor 0 should receive the final message; the read finds the ring empty.
\<close>

theorem overwrite_burst_2N_counterexample:
  "write_each quiet_env False None True
       (snd (init_header \<lparr>shm_name = ''shmcomm_pub_c1'', buf = replicate 144 0\<rparr> 2 8))
       [[1], [2], [3], [4]]
     = Some ([True, True, True, True],
         after_writes (snd (init_header \<lparr>shm_name = ''shmcomm_pub_c1'', buf = replicate 144 0\<rparr> 2 8))
           2 8 [[1], [2], [3], [4]])
   \<and> read_message_spsc
         (after_writes (snd (init_header \<lparr>shm_name = ''shmcomm_pub_c1'', buf = replicate 144 0\<rparr> 2 8))
            2 8 [[1], [2], [3], [4]]) 0
       = Inr None"
proof -
  let ?b = "\<lparr>shm_name = ''shmcomm_pub_c1'', buf = replicate 144 0\<rparr>"
  let ?ms = "[[1], [2], [3], [4 :: byte]]"
  have ms: "\<forall>p\<in>set ?ms. length p + 4 \<le> 8 \<and> length p < 2 ^ 32"
    by simp
  have r: "replicate 4 True = [True, True, True, True]"
    by (simp add: numeral_eq_Suc)
  have geo: "0 < (2::nat)" "4 \<le> (8::nat)" "128 + 2 * 8 \<le> length (buf ?b)" "length (buf ?b) < 2 ^ 63"
    by simp_all
  note ob = overwrite_burst_observed(1) [OF geo ms refl refl, of quiet_env False None]
    overwrite_burst_observed(2) [OF geo ms refl refl]
  have "read_message_spsc (after_writes (snd (init_header ?b (int 2) (int 8))) (int 2) (int 8) ?ms)
          (int (length ?ms mod 2)) = Inr None"
    using ob(2) by (rule read_message_spsc_empty)
  then show ?thesis
    using ob(1) by (simp add: r del: write_each.simps after_writes_Cons)
qed

section \<open>A producer blocked on a full ring\<close>

lemma tail_only_producer_sees: "tail_only s (producer_sees E j s)"
proof (induction j)
  case 0
  then show ?case by (simp add: tail_only_refl)
next
  case (Suc j)
  then show ?case
    using tail_only_consumers_run [of "producer_sees E j s" "pulls E j"]
    by (auto intro: tail_only_trans)
qed

lemma wait_for_slot_rounds:
  assumes n: "sint (hdr_get s IDX_NUM_SLOTS) \<noteq> 0"
    and w: "\<forall>i<j. ring_full (producer_sees E i s)
              \<and> (case d of None \<Rightarrow> True | Some t \<Rightarrow> clock E (Suc i) < t)"
  shows "wait_for_slot E d True (sint (hdr_get s IDX_NUM_SLOTS)) 0 s
       = wait_for_slot E d True (sint (hdr_get s IDX_NUM_SLOTS)) j (producer_sees E j s)"
  using w
proof (induction j)
  case 0
  then show ?case by simp
next
  case (Suc j)
  let ?N = "sint (hdr_get s IDX_NUM_SLOTS)" and ?sj = "producer_sees E j s"
  have N: "hdr_get ?sj IDX_NUM_SLOTS = hdr_get s IDX_NUM_SLOTS"
    using tail_only_producer_sees [of s E j] by (simp add: tail_only_def IDX_defs)
  from Suc.prems have f: "ring_full ?sj"
    and c: "case d of None \<Rightarrow> True | Some t \<Rightarrow> clock E (Suc j) < t"
    by simp_all
  from f have full: "(sint (hdr_get ?sj IDX_HEAD) + 1) mod ?N = sint (hdr_get ?sj IDX_TAIL)"
    by (simp add: ring_full_def N)
  have "wait_for_slot E d True ?N 0 s = wait_for_slot E d True ?N j ?sj"
    using Suc.prems by (intro Suc.IH) simp
  also have "\<dots> = wait_for_slot E d True ?N (Suc j) (consumers_run (pulls E j) ?sj)"
    using n full c by (rule wait_for_slot_sleep)
  finally show ?case by simp
qed

lemma write_message_blocking:
  assumes len: "128 \<le> length (buf s)"
    and fit: "int (length p) \<le> sint (hdr_get s IDX_SLOT_SIZE) - 4"
    and n: "sint (hdr_get s IDX_NUM_SLOTS) \<noteq> 0"
    and w: "\<forall>i<j. ring_full (producer_sees E i s)
              \<and> (case timeout of None \<Rightarrow> True | Some t \<Rightarrow> clock E (Suc i) < clock E 0 + t)"
  shows "ring_full (producer_sees E j s) \<Longrightarrow> timeout = Some t \<Longrightarrow> clock E 0 + t \<le> clock E (Suc j) \<Longrightarrow>
           write_message E s p True timeout False = Some (Inl SHMBufferFullError, producer_sees E j s)"
    and "\<not> ring_full (producer_sees E j s) \<Longrightarrow>
           write_message E s p True timeout False =
             Some (write_commit (producer_sees E j s) (sint (hdr_get s IDX_NUM_SLOTS))
                     (sint (hdr_get s IDX_SLOT_SIZE)) p)"
proof -
  let ?N = "sint (hdr_get s IDX_NUM_SLOTS)" and ?sj = "producer_sees E j s"
  let ?d = "case timeout of None \<Rightarrow> None | Some t \<Rightarrow> if True then Some (clock E 0 + t) else None"
  have N: "hdr_get ?sj IDX_NUM_SLOTS = hdr_get s IDX_NUM_SLOTS"
    using tail_only_producer_sees [of s E j] by (simp add: tail_only_def IDX_defs)
  have "\<forall>i<j. ring_full (producer_sees E i s)
          \<and> (case ?d of None \<Rightarrow> True | Some t \<Rightarrow> clock E (Suc i) < t)"
    using w by (auto split: option.splits)
  from wait_for_slot_rounds [OF n this]
  have r: "wait_for_slot E ?d True ?N 0 s = wait_for_slot E ?d True ?N j ?sj" .
  have wm: "write_message E s p True timeout False =
      (case wait_for_slot E ?d True ?N 0 s of
         None \<Rightarrow> None
       | Some (Inl e, s1) \<Rightarrow> Some (Inl e, s1)
       | Some (Inr Dropped, s1) \<Rightarrow> Some (Inr False, s1)
       | Some (Inr SlotFree, s1) \<Rightarrow> Some (write_commit s1 ?N (sint (hdr_get s IDX_SLOT_SIZE)) p))"
    using len fit
    by (simp add: write_message_def get_header_def make_header_array_def Let_def SLOT_PREFIX_SIZE_def)
  show "write_message E s p True timeout False = Some (Inl SHMBufferFullError, ?sj)"
    if f: "ring_full ?sj" and t: "timeout = Some t" and late: "clock E 0 + t \<le> clock E (Suc j)"
  proof -
    from f have full: "(sint (hdr_get ?sj IDX_HEAD) + 1) mod ?N = sint (hdr_get ?sj IDX_TAIL)"
      by (simp add: ring_full_def N)
    have "wait_for_slot E (Some (clock E 0 + t)) True ?N j ?sj = Some (Inl SHMBufferFullError, ?sj)"
      using n full late by (rule wait_for_slot_deadline)
    then have "wait_for_slot E ?d True ?N 0 s = Some (Inl SHMBufferFullError, ?sj)"
      using r by (simp add: t)
    then show ?thesis
      by (subst wm) simp
  qed
  show "write_message E s p True timeout False =
      Some (write_commit ?sj ?N (sint (hdr_get s IDX_SLOT_SIZE)) p)"
    if f: "\<not> ring_full ?sj"
  proof -
    from f have free: "(sint (hdr_get ?sj IDX_HEAD) + 1) mod ?N \<noteq> sint (hdr_get ?sj IDX_TAIL)"
      by (simp add: ring_full_def N)
    have "wait_for_slot E ?d True ?N j ?sj = Some (Inr SlotFree, ?sj)"
      using n free by (rule wait_for_slot_free)
    then have "wait_for_slot E ?d True ?N 0 s = Some (Inr SlotFree, ?sj)"
      using r by simp
    then show ?thesis
      by (subst wm) simp
  qed
qed

lemma ring_ok_tail_only: "tail_only s s' \<Longrightarrow> ring_ok s n sz \<Longrightarrow> ring_ok s' n sz"
  by (simp add: tail_only_def ring_ok_def IDX_defs)


lemma shared_tail_read:
  assumes r: "ring_ok s n sz" and t: "sint (hdr_get s IDX_TAIL) = int t" and tn: "t < n"
    and ne: "sint (hdr_get s IDX_HEAD) \<noteq> int t"
    and sh: "slot_holds (buf s) (128 + t * sz) m"
  shows "read_message_shared_tail s
           = (Inr (Some m), hdr_set s IDX_TAIL (word_of_int (int (Suc t mod n))))"
proof -
  have n0: "0 < n" and N: "sint (hdr_get s IDX_NUM_SLOTS) = int n"
    and S: "sint (hdr_get s IDX_SLOT_SIZE) = int sz"
    and len: "128 + n * sz \<le> length (buf s)" and l63: "length (buf s) < 2 ^ 63"
    using r by (simp_all add: ring_ok_def)
  have so: "slot_offset (int t) (int sz) = int (128 + t * sz)"
    by (simp add: slot_offset_def HEADER_SIZE_def)
  have "Suc t * sz \<le> n * sz" using tn by (intro mult_le_mono1) simp
  then have "128 + t * sz < 2 ^ 63" using len l63 by simp
  then have "int (128 + t * sz) < int (2 ^ 63)" by (simp only: of_nat_less_iff)
  then have o63: "int (128 + t * sz) < 2 ^ 63" by simp
  have rd: "read_slot s (int t) (int sz) = Inr m"
    using sh so o63 by (rule slot_holds_read)
  have m: "(int t + 1) mod int n = int (Suc t mod n)"
    by (simp add: zmod_int add.commute)
  have "n \<le> n * sz" using r by (simp add: ring_ok_def)
  then have "n < 2 ^ 63" using len l63 by linarith
  then have "int n < int (2 ^ 63)" by (simp only: of_nat_less_iff)
  moreover have "int (Suc t mod n) < int n" using n0 by simp
  ultimately have "int (Suc t mod n) < 2 ^ 63" by simp
  then have np: "np_int64 (int (Suc t mod n)) = Inr (word_of_int (int (Suc t mod n)))"
    by (intro np_int64_ok) simp_all
  show ?thesis
    using len ne n0
    by (simp add: read_message_shared_tail_def get_header_def make_header_array_def Let_def
        t N S rd m np)
qed

text \<open>
  C6.  A write with \<open>overwrite=False\<close>, \<open>block=True\<close> and a timeout \<open>t\<close>, of a payload that
  fits, on a ring that the producer finds full at the iterations \<open>0, \<dots>, j - 1\<close> of its
  loop, each time with the clock still before the deadline \<open>clock E 0 + t\<close>:
  \<^item> when at iteration \<open>j\<close> the ring is still full and the clock has reached the deadline,
    the call raises \<open>SHMBufferFullError\<close> (an \<open>SHMError\<close>, and not \<open>SHMTimeoutError\<close>),
    the segment being as the consumers left it;
  \<^item> when at iteration \<open>j\<close> a slot is free, the call writes the payload there and returns
    \<open>True\<close>.
\<close>

theorem blocking_write_on_full_ring:
  assumes r: "ring_ok s n sz" and h: "sint (hdr_get s IDX_HEAD) = int h" and hn: "h < n"
    and p: "length p + 4 \<le> sz" "length p < 2 ^ 32"
    and w: "\<forall>i<j. ring_full (producer_sees E i s) \<and> clock E (Suc i) < clock E 0 + t"
  shows "(ring_full (producer_sees E j s) \<and> clock E 0 + t \<le> clock E (Suc j) \<longrightarrow>
            write_message E s p True (Some t) False
              = Some (Inl SHMBufferFullError, producer_sees E j s))
       \<and> (\<not> ring_full (producer_sees E j s) \<longrightarrow>
            write_message E s p True (Some t) False
              = Some (Inr True, after_write (producer_sees E j s) (int n) (int sz) p))
       \<and> SHMBufferFullError \<noteq> SHMTimeoutError \<and> is_SHMError SHMBufferFullError"
proof -
  let ?sj = "producer_sees E j s"
  have N: "sint (hdr_get s IDX_NUM_SLOTS) = int n" and S: "sint (hdr_get s IDX_SLOT_SIZE) = int sz"
    and len: "128 \<le> length (buf s)" and n0: "0 < n"
    using r by (simp_all add: ring_ok_def)
  have fit: "int (length p) \<le> sint (hdr_get s IDX_SLOT_SIZE) - 4"
    unfolding S using p(1) by linarith
  have nz: "sint (hdr_get s IDX_NUM_SLOTS) \<noteq> 0"
    using n0 by (simp add: N)
  have w': "\<forall>i<j. ring_full (producer_sees E i s)
      \<and> (case Some t of None \<Rightarrow> True | Some t \<Rightarrow> clock E (Suc i) < clock E 0 + t)"
    using w by simp
  note wb = write_message_blocking [OF len fit nz w']
  have t: "tail_only s ?sj" by (rule tail_only_producer_sees)
  then have rj: "ring_ok ?sj n sz"
    using r by (rule ring_ok_tail_only)
  have hj: "sint (hdr_get ?sj IDX_HEAD) = int h"
    using t h by (simp add: tail_only_def IDX_defs)
  have c: "write_commit ?sj (int n) (int sz) p = (Inr True, after_write ?sj (int n) (int sz) p)"
    by (rule ring_write_commit(1) [OF rj hj hn p])
  have a: "write_message E s p True (Some t) False = Some (Inl SHMBufferFullError, ?sj)"
    if "ring_full ?sj" "clock E 0 + t \<le> clock E (Suc j)"
    using that by (intro wb(1)) simp_all
  have b: "write_message E s p True (Some t) False = Some (Inr True, after_write ?sj (int n) (int sz) p)"
    if "\<not> ring_full ?sj"
    using wb(2) [OF that] c by (simp add: N S)
  show ?thesis
    using a b by simp
qed

lemma full_ring_props:
  shows "ring_ok full_ring 2 8"
    and "sint (hdr_get full_ring IDX_HEAD) = 1"
    and "hdr_get full_ring IDX_TAIL = 0"
    and "slot_holds (buf full_ring) 128 [7]"
proof -
  let ?b = "\<lparr>shm_name = ''shmcomm_test_buf'', buf = replicate (128 + 2 * 8) (0 :: byte)\<rparr>"
  have f: "fresh_segment 2 8 = snd (init_header ?b (int 2) (int 8))"
    by (simp add: fresh_segment_def)
  have geo: "0 < (2::nat)" "4 \<le> (8::nat)" "128 + 2 * 8 \<le> length (buf ?b)" "length (buf ?b) < 2 ^ 63"
    by simp_all
  note ir = init_header_ring [OF geo, folded f]
  have h0: "sint (hdr_get (fresh_segment 2 8) IDX_HEAD) = int 0"
    by (simp add: ir)
  have p: "length [7 :: byte] + 4 \<le> 8" "length [7 :: byte] < 2 ^ 32"
    by simp_all
  have fr: "full_ring = after_write (fresh_segment 2 8) (int 2) (int 8) [7]"
    by (simp add: full_ring_def)
  note rc = ring_write_commit [OF ir(2) h0 _ p, folded fr]
  show "ring_ok full_ring 2 8" by (rule rc) simp
  show "sint (hdr_get full_ring IDX_HEAD) = 1" using rc(3) by simp
  show "hdr_get full_ring IDX_TAIL = 0" using rc(4) ir(4) by simp
  show "slot_holds (buf full_ring) 128 [7]" using rc(7) by simp
qed

lemma full_ring_is_full: "ring_full full_ring"
  using full_ring_props by (simp add: ring_full_def ring_ok_def)

theorem blocking_write_on_full_ring_witness:
  "write_message quiet_env full_ring [9] True (Some (5 / 2)) False
     = Some (Inl SHMBufferFullError, full_ring)
   \<and> write_message prompt_env full_ring [9] True (Some (5 / 2)) False
     = Some (Inr True, after_write (hdr_set full_ring IDX_TAIL 1) 2 8 [9])"
proof -
  note fp = full_ring_props
  have h: "sint (hdr_get full_ring IDX_HEAD) = int 1" using fp(2) by simp
  have p: "length [9 :: byte] + 4 \<le> 8" "length [9 :: byte] < 2 ^ 32" by simp_all
  have q: "producer_sees quiet_env j full_ring = full_ring" for j
    by (induction j) (simp_all add: quiet_env_def)
  have wq: "\<forall>i<2. ring_full (producer_sees quiet_env i full_ring)
      \<and> clock quiet_env (Suc i) < clock quiet_env 0 + 5 / 2"
    by (auto simp: q full_ring_is_full quiet_env_def less_Suc_eq numeral_2_eq_2)
  have a: "write_message quiet_env full_ring [9] True (Some (5 / 2)) False
     = Some (Inl SHMBufferFullError, full_ring)"
    using blocking_write_on_full_ring [OF fp(1) h _ p wq] q full_ring_is_full
    by (simp add: quiet_env_def)
  have t: "sint (hdr_get full_ring IDX_TAIL) = int 0" by (simp add: fp)
  have "read_message_shared_tail full_ring
      = (Inr (Some [7]), hdr_set full_ring IDX_TAIL (word_of_int (int (Suc 0 mod 2))))"
    using fp(1) t _ _ _ by (rule shared_tail_read) (simp_all add: fp)
  then have s1: "producer_sees prompt_env (Suc 0) full_ring = hdr_set full_ring IDX_TAIL 1"
    by (simp add: prompt_env_def)
  have len: "128 \<le> length (buf full_ring)" using fp(1) by (simp add: ring_ok_def)
  have "hdr_get (hdr_set full_ring IDX_TAIL 1) IDX_TAIL = 1"
    using len by (intro hdr_get_hdr_set_same) (simp add: IDX_defs)
  moreover have "hdr_get (hdr_set full_ring IDX_TAIL 1) IDX_HEAD = hdr_get full_ring IDX_HEAD"
    and "hdr_get (hdr_set full_ring IDX_TAIL 1) IDX_NUM_SLOTS = hdr_get full_ring IDX_NUM_SLOTS"
    using len by (simp_all add: hdr_get_hdr_set_other IDX_defs)
  ultimately have nf1: "\<not> ring_full (hdr_set full_ring IDX_TAIL 1)"
    using fp by (simp add: ring_full_def ring_ok_def)
  have nf: "\<not> ring_full (producer_sees prompt_env (Suc 0) full_ring)"
    unfolding s1 by (rule nf1)
  have wp: "\<forall>i<Suc 0. ring_full (producer_sees prompt_env i full_ring)
      \<and> clock prompt_env (Suc i) < clock prompt_env 0 + 5 / 2"
    by (simp add: full_ring_is_full prompt_env_def)
  have b: "write_message prompt_env full_ring [9] True (Some (5 / 2)) False
     = Some (Inr True, after_write (hdr_set full_ring IDX_TAIL 1) 2 8 [9])"
    using blocking_write_on_full_ring [OF fp(1) h _ p wp] nf unfolding s1 by simp
  show ?thesis
    using a b by simp
qed



section \<open>Serialization\<close>

text \<open>
  C10.  For every input that is \<open>bytes\<close>, \<open>bytearray\<close> or \<open>memoryview\<close>, \<open>serialize\<close> returns
  its byte content unchanged for every method string, recognised or not; it never raises
  for such an input.  The error for an unknown method is raised for the other inputs.
\<close>

theorem serialize_bytes_passthrough:
  "(is_bytes_like obj \<longrightarrow> serialize c obj method = Inr (content obj))
   \<and> (\<forall>e. serialize c obj method = Inl e \<longrightarrow> \<not> is_bytes_like obj)
   \<and> (method \<noteq> ''pickle'' \<and> method \<noteq> ''msgpack'' \<longrightarrow>
         serialize c (PyObject x) method = Inl SHMSerializationError)"
  by (cases obj) simp_all

theorem serialize_bytes_passthrough_witness:
  "is_bytes_like (PyMemoryview [1, 2] :: nat pyobj)
   \<and> serialize example_codec (PyMemoryview [1, 2]) ''json'' = Inr [1, 2]
   \<and> serialize example_codec (PyObject 5) ''json'' = Inl SHMSerializationError"
  using serialize_bytes_passthrough [of "PyMemoryview [1, 2]" example_codec "''json''" 5]
  by simp

section \<open>Errors for bad arguments\<close>

lemma write_message_oversized:
  assumes "128 \<le> length (buf s)" and "sint (hdr_get s IDX_SLOT_SIZE) - 4 < int (length p)"
  shows "write_message E s p block timeout overwrite = Some (Inl ValueError, s)"
  using assms
  by (simp add: write_message_def get_header_def make_header_array_def Let_def SLOT_PREFIX_SIZE_def)

text \<open>
  C5 (amended).  A write whose payload is longer than \<open>SLOT_SIZE - 4\<close> raises the built-in
  \<open>ValueError\<close>, which is not an \<open>SHMError\<close>, in every mode, and leaves the segment as it
  was.  Serializing an object that is not bytes-like with a method other than \<open>pickle\<close> and
  \<open>msgpack\<close> raises \<open>SHMSerializationError\<close> (an \<open>SHMError\<close>); \<open>Publisher.send\<close> then raises
  it before any write, and leaves the publisher's segment as it was.
\<close>

theorem argument_errors:
  "(128 \<le> length (buf s) \<and> sint (hdr_get s IDX_SLOT_SIZE) - 4 < int (length p) \<longrightarrow>
       write_message E s p block timeout overwrite = Some (Inl ValueError, s))
   \<and> \<not> is_SHMError ValueError
   \<and> (method \<noteq> ''pickle'' \<and> method \<noteq> ''msgpack'' \<longrightarrow>
         serialize c (PyObject x) method = Inl SHMSerializationError
         \<and> Publisher_send c E (pub\<lparr>pub_serialization := method\<rparr>) (PyObject x)
             = Some (Inl SHMSerializationError, pub\<lparr>pub_serialization := method\<rparr>))
   \<and> is_SHMError SHMSerializationError"
  by (simp add: write_message_oversized Publisher_send_def)

theorem argument_errors_witness:
  "write_message quiet_env (fresh_segment 2 8) [1, 2, 3, 4, 5] False None False
     = Some (Inl ValueError, fresh_segment 2 8)
   \<and> serialize example_codec (PyObject 5) ''json'' = Inl SHMSerializationError
   \<and> Publisher_send example_codec quiet_env example_publisher (PyObject 5)
       = Some (Inl SHMSerializationError, example_publisher)"
proof -
  have p: "example_publisher\<lparr>pub_serialization := ''json''\<rparr> = example_publisher"
    by (simp add: example_publisher_def)
  have h: "128 \<le> length (buf (fresh_segment 2 8))
      \<and> sint (hdr_get (fresh_segment 2 8) IDX_SLOT_SIZE) - 4 < int (length [1, 2, 3, 4, 5 :: byte])"
    by (simp add: fresh_segment_props)
  show ?thesis
    using h argument_errors [of "fresh_segment 2 8" "[1, 2, 3, 4, 5]" quiet_env False None False
        "''json''" example_codec 5 example_publisher]
    by (simp add: p)
qed

text \<open>
  The claim as the specification states it: the oversized write fails, but with
  \<open>ValueError\<close>, which is outside the \<open>SHMError\<close> hierarchy; and serializing with an
  unrecognised method does not fail at all when the input is bytes-like.
\<close>

theorem argument_error_counterexample:
  "write_message quiet_env (fresh_segment 2 8) [1, 2, 3, 4, 5] False None False
     = Some (Inl ValueError, fresh_segment 2 8)
   \<and> \<not> is_SHMError ValueError
   \<and> serialize example_codec (PyBytes [1, 2]) ''json'' = Inr [1, 2]"
proof -
  have "write_message quiet_env (fresh_segment 2 8) [1, 2, 3, 4, 5] False None False
     = Some (Inl ValueError, fresh_segment 2 8)"
    by (rule write_message_oversized) (simp_all add: fresh_segment_props)
  then show ?thesis by simp
qed

section \<open>Closing an endpoint twice\<close>

lemma close_segment_destroy: "shm_name s \<notin> close_segment os s True"
  by (simp add: close_segment_def SharedMemory_close_def SharedMemory_unlink_def)

lemma close_segment_subset: "close_segment os s destroy \<subseteq> os"
  by (auto simp: close_segment_def SharedMemory_close_def SharedMemory_unlink_def)

text \<open>
  C8.  For every endpoint, \<open>close\<close> never raises (\<open>close_segment\<close> catches every exception,
  so the model of \<open>close\<close> is a total function of the endpoint and the host's names);
  calling it twice leaves the endpoint and the host's names as calling it once does; after
  it the endpoint holds no segment, and the names of the segments an owner held are gone.
\<close>

theorem close_idempotent:
  "endpoint_close (fst (endpoint_close e os)) (snd (endpoint_close e os)) = endpoint_close e os
   \<and> segments_held (fst (endpoint_close e os)) = []
   \<and> (is_owner e \<longrightarrow> shm_name ` set (segments_held e) \<inter> snd (endpoint_close e os) = {})"
proof (cases e)
  case (APublisher x)
  then show ?thesis
    by (auto simp: Publisher_close_def close_segment_destroy split: option.splits)
next
  case (ASubscriber x)
  then show ?thesis
    by (auto simp: Subscriber_close_def split: option.splits)
next
  case (APusher x)
  then show ?thesis
    by (auto simp: Pusher_close_def close_segment_destroy split: option.splits)
next
  case (APuller x)
  then show ?thesis
    by (auto simp: Puller_close_def split: option.splits)
next
  case (AReplier x)
  have "shm_name s \<notin> close_segment (close_segment os s True) s' True" for s s'
    using close_segment_subset [of "close_segment os s True" s' True] close_segment_destroy [of s os]
    by blast
  with AReplier show ?thesis
    by (auto simp: Replier_close_def close_segment_destroy split: option.splits)
next
  case (ARequester x)
  then show ?thesis
    by (auto simp: Requester_close_def split: option.splits)
qed

theorem close_idempotent_witness:
  "is_owner (APublisher example_publisher)
   \<and> endpoint_close (APublisher example_publisher) {pub_segment_name ''c1'', ''other''}
     = (APublisher (example_publisher\<lparr>pub_shm := None\<rparr>), {''other''})
   \<and> endpoint_close (APublisher (example_publisher\<lparr>pub_shm := None\<rparr>)) {''other''}
     = (APublisher (example_publisher\<lparr>pub_shm := None\<rparr>), {''other''})"
proof -
  have c: "endpoint_close (APublisher example_publisher) {pub_segment_name ''c1'', ''other''}
     = (APublisher (example_publisher\<lparr>pub_shm := None\<rparr>), {''other''})"
    by (auto simp: Publisher_close_def example_publisher_def close_segment_def
        SharedMemory_close_def SharedMemory_unlink_def pub_segment_name_def)
  show ?thesis
    using close_idempotent [of "APublisher example_publisher" "{pub_segment_name ''c1'', ''other''}"]
    unfolding c by simp
qed

section \<open>Attaching\<close>

lemma attach_poll_expired:
  "deadline \<le> clock E (Suc k) \<Longrightarrow>
     attach_poll E name deadline d k naps = Some (Inl SHMConnectionError, naps)"
  by (subst attach_poll.simps) simp

lemma attach_poll_found:
  "clock E (Suc k) < deadline \<Longrightarrow> attach_try E name k = Inr s \<Longrightarrow>
     attach_poll E name deadline d k naps = Some (Inr s, naps)"
  by (subst attach_poll.simps) simp

lemma attach_poll_mismatch:
  "clock E (Suc k) < deadline \<Longrightarrow> attach_try E name k = Inl SHMConnectionError \<Longrightarrow>
     attach_poll E name deadline d k naps = Some (Inl SHMConnectionError, naps)"
  by (subst attach_poll.simps) simp

lemma attach_poll_retry:
  "clock E (Suc k) < deadline \<Longrightarrow> attach_try E name k = Inl e \<Longrightarrow> e \<noteq> SHMConnectionError \<Longrightarrow>
     attach_poll E name deadline d k naps = attach_poll E name deadline d (Suc k) (naps @ [d])"
  by (subst attach_poll.simps) simp

lemma attach_try_absent:
  "shm_open E k name = Inl FileNotFoundError \<Longrightarrow> attach_try E name k = Inl FileNotFoundError"
  by (simp add: attach_try_def)

lemma attach_poll_rounds:
  assumes "\<forall>i<k. clock E (Suc i) < deadline \<and> shm_open E i name = Inl FileNotFoundError"
  shows "attach_poll E name deadline d 0 [] = attach_poll E name deadline d k (replicate k d)"
  using assms
proof (induction k)
  case 0
  then show ?case by simp
next
  case (Suc k)
  then have c: "clock E (Suc k) < deadline" and a: "attach_try E name k = Inl FileNotFoundError"
    by (simp_all add: attach_try_absent)
  have "attach_poll E name deadline d 0 [] = attach_poll E name deadline d k (replicate k d)"
    using Suc.prems by (intro Suc.IH) simp
  also have "\<dots> = attach_poll E name deadline d (Suc k) (replicate k d @ [d])"
    using c a by (rule attach_poll_retry) simp
  finally show ?case
    by (simp add: replicate_append_same)
qed

lemma validate_header_iff:
  "validate_header s = Inr () \<longleftrightarrow>
     128 \<le> length (buf s) \<and> sint (hdr_get s IDX_MAGIC) = MAGIC
     \<and> sint (hdr_get s IDX_VERSION) = VERSION"
  by (auto simp: validate_header_def make_header_array_def)

lemma validate_header_mismatch:
  "128 \<le> length (buf s) \<Longrightarrow>
   sint (hdr_get s IDX_MAGIC) \<noteq> MAGIC \<or> sint (hdr_get s IDX_VERSION) \<noteq> VERSION \<Longrightarrow>
     validate_header s = Inl SHMConnectionError"
  by (auto simp: validate_header_def make_header_array_def)

text \<open>
  C7.  \<open>attach_segment\<close>, while the segment is absent at the attempts \<open>0, \<dots>, k - 1\<close>
  (each made before the deadline \<open>clock E 0 + timeout\<close>), sleeps \<open>poll_interval\<close> after each
  of them, and then
  \<^item> raises \<open>SHMConnectionError\<close> when the clock has reached the deadline;
  \<^item> returns the segment when it exists at attempt \<open>k\<close> and its header validates;
  \<^item> raises \<open>SHMConnectionError\<close> at once, with no further sleep or attempt, when the
    segment exists at attempt \<open>k\<close> and its magic number or its version is wrong.
  The defaults are \<open>timeout = 5\<close> seconds and \<open>poll_interval = 5\<close> milliseconds, and a header
  validates exactly when \<open>MAGIC\<close> and \<open>VERSION\<close> are correct.
\<close>

theorem attach_semantics:
  assumes "\<forall>i<k. clock E (Suc i) < clock E 0 + t \<and> shm_open E i name = Inl FileNotFoundError"
  shows "(clock E 0 + t \<le> clock E (Suc k) \<longrightarrow>
            attach_segment E name (Some t) (Some d) = Some (Inl SHMConnectionError, replicate k d))
       \<and> (clock E (Suc k) < clock E 0 + t \<and> shm_open E k name = Inr b
            \<and> validate_header \<lparr>shm_name = name, buf = b\<rparr> = Inr () \<longrightarrow>
            attach_segment E name (Some t) (Some d)
              = Some (Inr \<lparr>shm_name = name, buf = b\<rparr>, replicate k d))
       \<and> (clock E (Suc k) < clock E 0 + t \<and> shm_open E k name = Inr b \<and> 128 \<le> length b
            \<and> (sint (hdr_get \<lparr>shm_name = name, buf = b\<rparr> IDX_MAGIC) \<noteq> MAGIC
                \<or> sint (hdr_get \<lparr>shm_name = name, buf = b\<rparr> IDX_VERSION) \<noteq> VERSION) \<longrightarrow>
            attach_segment E name (Some t) (Some d) = Some (Inl SHMConnectionError, replicate k d))
       \<and> attach_segment E name None None = attach_segment E name (Some 5) (Some (5 / 1000))
       \<and> (validate_header s = Inr () \<longleftrightarrow>
            128 \<le> length (buf s) \<and> sint (hdr_get s IDX_MAGIC) = MAGIC
            \<and> sint (hdr_get s IDX_VERSION) = VERSION)"
proof -
  let ?dl = "clock E 0 + t"
  let ?s = "\<lparr>shm_name = name, buf = b\<rparr>"
  have a: "attach_segment E name (Some t) (Some d) = attach_poll E name ?dl d k (replicate k d)"
    using attach_poll_rounds [OF assms] by (simp add: attach_segment_def)
  have 1: "attach_segment E name (Some t) (Some d) = Some (Inl SHMConnectionError, replicate k d)"
    if "?dl \<le> clock E (Suc k)"
    unfolding a using that by (rule attach_poll_expired)
  have 2: "attach_segment E name (Some t) (Some d) = Some (Inr ?s, replicate k d)"
    if "clock E (Suc k) < ?dl" "shm_open E k name = Inr b" "validate_header ?s = Inr ()"
  proof -
    have "attach_try E name k = Inr ?s"
      using that by (simp add: attach_try_def)
    with that(1) show ?thesis
      unfolding a by (rule attach_poll_found)
  qed
  have 3: "attach_segment E name (Some t) (Some d) = Some (Inl SHMConnectionError, replicate k d)"
    if "clock E (Suc k) < ?dl" "shm_open E k name = Inr b" "128 \<le> length b"
      "sint (hdr_get ?s IDX_MAGIC) \<noteq> MAGIC \<or> sint (hdr_get ?s IDX_VERSION) \<noteq> VERSION"
  proof -
    have "validate_header ?s = Inl SHMConnectionError"
      using that(3,4) by (intro validate_header_mismatch) simp_all
    then have "attach_try E name k = Inl SHMConnectionError"
      using that(2) by (simp add: attach_try_def)
    with that(1) show ?thesis
      unfolding a by (rule attach_poll_mismatch)
  qed
  have 4: "attach_segment E name None None = attach_segment E name (Some 5) (Some (5 / 1000))"
    by (simp add: attach_segment_def)
  show ?thesis
    using 1 2 3 4 validate_header_iff [of s] by blast
qed


lemma le_decode_zeros: "le_decode (replicate n 0) = 0"
  by (induction n) simp_all

lemma hdr_get_zeros: "hdr_get \<lparr>shm_name = name, buf = replicate n 0\<rparr> i = 0"
  by (simp add: hdr_get_def buf_load_def le_decode_zeros)

lemma hdr_get_renamed [simp]: "hdr_get (s\<lparr>shm_name := name\<rparr>) i = hdr_get s i"
  by (simp add: hdr_get_def)

lemma renamed: "\<lparr>shm_name = name, buf = buf s\<rparr> = s\<lparr>shm_name := name\<rparr>"
  by simp

lemma fresh_segment_valid: "validate_header ((fresh_segment 2 8)\<lparr>shm_name := name\<rparr>) = Inr ()"
  by (simp add: validate_header_iff fresh_segment_props)

theorem attach_semantics_witness:
  "attach_segment quiet_env ''shmcomm_pub_c1'' (Some (5 / 2)) (Some (1 / 200))
     = Some (Inl SHMConnectionError, [1 / 200, 1 / 200])
   \<and> attach_segment late_env ''shmcomm_pub_c1'' (Some (5 / 2)) (Some (1 / 200))
     = Some (Inr ((fresh_segment 2 8)\<lparr>shm_name := ''shmcomm_pub_c1''\<rparr>), [1 / 200])
   \<and> attach_segment foreign_env ''shmcomm_pub_c1'' (Some (5 / 2)) (Some (1 / 200))
     = Some (Inl SHMConnectionError, [])"
proof -
  let ?n = "''shmcomm_pub_c1''"
  have r2: "replicate 2 x = [x, x]" for x :: real by (simp add: numeral_2_eq_2)
  have q: "\<forall>i<2. clock quiet_env (Suc i) < clock quiet_env 0 + 5 / 2
      \<and> shm_open quiet_env i ?n = Inl FileNotFoundError"
    by (auto simp: quiet_env_def less_Suc_eq numeral_2_eq_2)
  have 1: "attach_segment quiet_env ?n (Some (5 / 2)) (Some (1 / 200))
     = Some (Inl SHMConnectionError, [1 / 200, 1 / 200])"
    using attach_semantics [OF q, where d = "1 / 200"] by (simp add: quiet_env_def r2)
  have l: "\<forall>i<Suc 0. clock late_env (Suc i) < clock late_env 0 + 5 / 2
      \<and> shm_open late_env i ?n = Inl FileNotFoundError"
    by (simp add: late_env_def)
  have 2: "attach_segment late_env ?n (Some (5 / 2)) (Some (1 / 200))
     = Some (Inr ((fresh_segment 2 8)\<lparr>shm_name := ?n\<rparr>), [1 / 200])"
    using attach_semantics [OF l, where d = "1 / 200" and b = "buf (fresh_segment 2 8)"]
      fresh_segment_valid [of ?n]
    by (simp add: late_env_def renamed)
  have f: "\<forall>i<0. clock foreign_env (Suc i) < clock foreign_env 0 + 5 / 2
      \<and> shm_open foreign_env i ?n = Inl FileNotFoundError"
    by simp
  have 3: "attach_segment foreign_env ?n (Some (5 / 2)) (Some (1 / 200))
     = Some (Inl SHMConnectionError, [])"
    using attach_semantics [OF f, where d = "1 / 200" and b = "replicate 136 0"]
    by (simp add: foreign_env_def hdr_get_zeros MAGIC_def)
  show ?thesis
    using 1 2 3 by simp
qed

section \<open>The private cursor of an attaching consumer\<close>

lemma subscriber_cursor_at_head:
  assumes "Subscriber_init E name timeout_connect serialization = Some (Inr sub)"
  shows "\<exists>s. sub_shm sub = Some s \<and> sub_tail sub = sint (hdr_get s IDX_HEAD)"
  using assms
  by (auto simp: Subscriber_init_def split: option.splits sum.splits prod.splits)

lemma requester_cursor_zero:
  assumes "Requester_init E1 E2 name timeout_connect serialization = Some (Inr req)"
  shows "req_rep_tail req = 0"
  using assms
  by (auto simp: Requester_init_def split: option.splits sum.splits prod.splits)

lemma read_slot_renamed [simp]: "read_slot (s\<lparr>shm_name := name\<rparr>) idx sz = read_slot s idx sz"
  by (simp add: read_slot_def Let_def split: sum.splits)

lemma read_message_spsc_renamed [simp]:
  "read_message_spsc (s\<lparr>shm_name := name\<rparr>) t = read_message_spsc s t"
  by (simp add: read_message_spsc_def get_header_def make_header_array_def Let_def)

lemma full_ring_holds: "ring_holds full_ring 2 8 [[7]]"
proof -
  let ?b = "\<lparr>shm_name = ''shmcomm_test_buf'', buf = replicate (128 + 2 * 8) (0 :: byte)\<rparr>"
  have f: "fresh_segment 2 8 = snd (init_header ?b (int 2) (int 8))"
    by (simp add: fresh_segment_def)
  have geo: "0 < (2::nat)" "4 \<le> (8::nat)" "128 + 2 * 8 \<le> length (buf ?b)" "length (buf ?b) < 2 ^ 63"
    by simp_all
  note i = init_header_ring_holds [OF geo, folded f]
  have p: "length [7 :: byte] + 4 \<le> 8" "length [7 :: byte] < 2 ^ 32"
    by simp_all
  from ring_holds_write(2) [OF i p] show ?thesis
    by (simp add: full_ring_def)
qed

lemma full_ring_valid: "validate_header (full_ring\<lparr>shm_name := name\<rparr>) = Inr ()"
proof -
  have h: "sint (hdr_get (fresh_segment 2 8) IDX_HEAD) = int 0"
    by (simp add: fresh_segment_props)
  have off: "slot_offset (sint (hdr_get (fresh_segment 2 8) IDX_HEAD)) 8 = int 128"
    by (simp add: fresh_segment_props slot_offset_def HEADER_SIZE_def)
  have inb: "128 + 4 + length [7 :: byte] \<le> length (buf (fresh_segment 2 8))"
    by (simp add: fresh_segment_props)
  note aw = after_write_props [OF off order_refl inb, where num_slots = 2, folded full_ring_def]
  have "hdr_get full_ring IDX_MAGIC = hdr_get (fresh_segment 2 8) IDX_MAGIC"
    and "hdr_get full_ring IDX_VERSION = hdr_get (fresh_segment 2 8) IDX_VERSION"
    by (rule aw(5); simp add: IDX_defs)+
  then show ?thesis
    using aw(1) by (simp add: validate_header_iff fresh_segment_props)
qed

lemma attach_used:
  "attach_segment used_env name (Some (5 / 2)) None
     = Some (Inr (full_ring\<lparr>shm_name := name\<rparr>), [])"
proof -
  have "attach_try used_env name 0 = Inr (full_ring\<lparr>shm_name := name\<rparr>)"
    by (simp add: attach_try_def used_env_def full_ring_valid renamed del: shm.update_convs)
  moreover have "clock used_env (Suc 0) < clock used_env 0 + 5 / 2"
    by (simp add: used_env_def)
  ultimately show ?thesis
    by (simp add: attach_segment_def attach_poll_found)
qed

text \<open>
  C4.  The claim is that every attaching consumer starts its private cursor at the value of
  \<open>HEAD\<close> it finds when it attaches.  \<open>Subscriber.__init__\<close> does so
  (\<open>subscriber_cursor_at_head\<close>); \<open>Requester.__init__\<close> starts the cursor of the reply
  channel at 0 whatever \<open>HEAD\<close> is (\<open>requester_cursor_zero\<close>).  On a reply ring that already
  holds one message (\<open>HEAD = 1\<close>) the new Requester has cursor 0 and its first receive
  returns that old message; a Subscriber attached to the same ring has cursor 1 and finds
  the ring empty.
\<close>

theorem requester_cursor_ignores_head:
  "Requester_init used_env used_env ''svc'' (5 / 2) ''pickle''
     = Some (Inr \<lparr>req_name = ''svc'', req_serialization = ''pickle'',
                  req_req_shm = Some (full_ring\<lparr>shm_name := req_segment_name ''svc''\<rparr>),
                  req_rep_shm = Some (full_ring\<lparr>shm_name := rep_segment_name ''svc''\<rparr>),
                  req_rep_tail = 0\<rparr>)
   \<and> sint (hdr_get (full_ring\<lparr>shm_name := rep_segment_name ''svc''\<rparr>) IDX_HEAD) = 1
   \<and> fst (Requester_try_recv_bytes
            \<lparr>req_name = ''svc'', req_serialization = ''pickle'',
             req_req_shm = Some (full_ring\<lparr>shm_name := req_segment_name ''svc''\<rparr>),
             req_rep_shm = Some (full_ring\<lparr>shm_name := rep_segment_name ''svc''\<rparr>),
             req_rep_tail = 0\<rparr>) = Inr (Some [7])
   \<and> Subscriber_init used_env ''svc'' (5 / 2) ''pickle''
     = Some (Inr \<lparr>sub_name = ''svc'', sub_serialization = ''pickle'',
                  sub_shm_name = pub_segment_name ''svc'',
                  sub_shm = Some (full_ring\<lparr>shm_name := pub_segment_name ''svc''\<rparr>),
                  sub_tail = 1\<rparr>)
   \<and> fst (Subscriber_try_recv_bytes
            \<lparr>sub_name = ''svc'', sub_serialization = ''pickle'',
             sub_shm_name = pub_segment_name ''svc'',
             sub_shm = Some (full_ring\<lparr>shm_name := pub_segment_name ''svc''\<rparr>),
             sub_tail = 1\<rparr>) = Inr None"
proof -
  have h: "sint (hdr_get full_ring IDX_HEAD) = 1"
    by (rule full_ring_props)
  have len: "128 \<le> length (buf full_ring)"
    using full_ring_props(1) by (simp add: ring_ok_def)
  have r0: "read_message_spsc full_ring 0 = Inr (Some ([7], 1))"
    using read_message_spsc_holds [OF full_ring_holds, of 0] by simp
  have r1: "read_message_spsc full_ring 1 = Inr None"
    using read_message_spsc_empty [OF full_ring_holds] by simp
  have a: "Requester_init used_env used_env ''svc'' (5 / 2) ''pickle''
     = Some (Inr \<lparr>req_name = ''svc'', req_serialization = ''pickle'',
                  req_req_shm = Some (full_ring\<lparr>shm_name := req_segment_name ''svc''\<rparr>),
                  req_rep_shm = Some (full_ring\<lparr>shm_name := rep_segment_name ''svc''\<rparr>),
                  req_rep_tail = 0\<rparr>)"
    by (simp add: Requester_init_def attach_used)
  have b: "Subscriber_init used_env ''svc'' (5 / 2) ''pickle''
     = Some (Inr \<lparr>sub_name = ''svc'', sub_serialization = ''pickle'',
                  sub_shm_name = pub_segment_name ''svc'',
                  sub_shm = Some (full_ring\<lparr>shm_name := pub_segment_name ''svc''\<rparr>),
                  sub_tail = 1\<rparr>)"
    using len by (simp add: Subscriber_init_def attach_used get_header_def make_header_array_def h)
  show ?thesis
    using a b h r0 r1 by (simp add: Requester_try_recv_bytes_def Subscriber_try_recv_bytes_def)
qed

end
